theory Spec2Isabelle
  imports Main "HOL-Library.List_Lexorder"
begin

section \<open>Geometry primitives\<close>

text \<open>
  Modelled from the spec: the module \<^verbatim>\<open>textual.geometry\<close> (\<^verbatim>\<open>Offset\<close>, \<^verbatim>\<open>Size\<close>,
  \<^verbatim>\<open>Region\<close>) is imported by the compositor but is not among the source files. The spec
  (section 3) describes a region as an axis-aligned rectangle \<open>(x, y, w, h)\<close> in integer cell
  coordinates with intersection (possibly empty), union, containment of a point, containment of
  another region, half-open x-extents and y-range; an offset as a signed pair; a size as a pair
  with a derived region \<open>(0, 0, w, h)\<close>. All three are named tuples of Python integers.
\<close>

datatype offset = Offset (off_x: int) (off_y: int)

datatype size = Size (s_width: int) (s_height: int)

datatype region = Region (r_x: int) (r_y: int) (r_width: int) (r_height: int)

definition ORIGIN :: offset where
  "ORIGIN = Offset 0 0"

text \<open>\<^verbatim>\<open>region.size\<close>, \<^verbatim>\<open>size.region\<close>, \<^verbatim>\<open>region.origin\<close>.\<close>

definition region_size :: "region \<Rightarrow> size" where
  "region_size r = Size (r_width r) (r_height r)"

definition region_of_size :: "size \<Rightarrow> region" where
  "region_of_size s = Region 0 0 (s_width s) (s_height s)"

definition origin :: "region \<Rightarrow> offset" where
  "origin r = Offset (r_x r) (r_y r)"

text \<open>\<^verbatim>\<open>bool(region)\<close>: a region is truthy when it has an area.\<close>

definition region_bool :: "region \<Rightarrow> bool" where
  "region_bool r \<longleftrightarrow> r_width r \<noteq> 0 \<and> r_height r \<noteq> 0"

text \<open>\<^verbatim>\<open>region + offset\<close> and \<^verbatim>\<open>region - offset\<close> translate the rectangle.\<close>

definition region_add :: "region \<Rightarrow> offset \<Rightarrow> region" where
  "region_add r d = Region (r_x r + off_x d) (r_y r + off_y d) (r_width r) (r_height r)"

definition region_sub :: "region \<Rightarrow> offset \<Rightarrow> region" where
  "region_sub r d = Region (r_x r - off_x d) (r_y r - off_y d) (r_width r) (r_height r)"

text \<open>\<^verbatim>\<open>region.corners\<close> is \<open>(x, y, x + w, y + h)\<close>; \<^verbatim>\<open>x_extents\<close> is \<open>(x, x + w)\<close>.\<close>

definition r_x2 :: "region \<Rightarrow> int" where
  "r_x2 r = r_x r + r_width r"

definition r_y2 :: "region \<Rightarrow> int" where
  "r_y2 r = r_y r + r_height r"

text \<open>
  Intersection clamps each corner of the first rectangle into the extent of the second; the
  result is empty (zero width or height) when the rectangles do not meet.
\<close>

definition clamp :: "int \<Rightarrow> int \<Rightarrow> int \<Rightarrow> int" where
  "clamp lo hi v = (if v > hi then hi else if v < lo then lo else v)"

definition intersection :: "region \<Rightarrow> region \<Rightarrow> region" where
  "intersection a b =
     (let rx1 = clamp (r_x b) (r_x2 b) (r_x a);
          ry1 = clamp (r_y b) (r_y2 b) (r_y a);
          rx2 = clamp (r_x b) (r_x2 b) (r_x2 a);
          ry2 = clamp (r_y b) (r_y2 b) (r_y2 a)
      in Region rx1 ry1 (rx2 - rx1) (ry2 - ry1))"

definition union_region :: "region \<Rightarrow> region \<Rightarrow> region" where
  "union_region a b =
     (let x1 = min (r_x a) (r_x b); y1 = min (r_y a) (r_y b);
          x2 = max (r_x2 a) (r_x2 b); y2 = max (r_y2 a) (r_y2 b)
      in Region x1 y1 (x2 - x1) (y2 - y1))"

text \<open>\<^verbatim>\<open>region.contains(x, y)\<close>: the point lies in the half-open rectangle.\<close>

definition contains :: "region \<Rightarrow> int \<Rightarrow> int \<Rightarrow> bool" where
  "contains r px py \<longleftrightarrow> (r_x r \<le> px \<and> px < r_x2 r) \<and> (r_y r \<le> py \<and> py < r_y2 r)"

text \<open>\<^verbatim>\<open>other in region\<close> for a region operand: both corners of \<open>other\<close> lie inside.\<close>

definition contains_region :: "region \<Rightarrow> region \<Rightarrow> bool" where
  "contains_region r other \<longleftrightarrow>
     (r_x r \<le> r_x other \<and> r_x other \<le> r_x2 r \<and> r_y r \<le> r_y other \<and> r_y other \<le> r_y2 r) \<and>
     (r_x r \<le> r_x2 other \<and> r_x2 other \<le> r_x2 r \<and> r_y r \<le> r_y2 other \<and> r_y2 other \<le> r_y2 r)"

text \<open>
  \<^verbatim>\<open>clip.overlaps(region)\<close>: the spec (section 4.4, phase 2, step 2) skips a widget exactly when
  \<open>region \<inter> clip\<close> is empty.
\<close>

definition overlaps :: "region \<Rightarrow> region \<Rightarrow> bool" where
  "overlaps a b \<longleftrightarrow> region_bool (intersection b a)"

section \<open>Segments and lines\<close>

text \<open>
  Modelled from the spec: \<^verbatim>\<open>Segment\<close> and \<^verbatim>\<open>Style\<close> come from the \<^verbatim>\<open>rich\<close> library, which is
  not among the source files. A segment is a run of characters with an optional style and a
  cell length; every character is taken to occupy one cell. \<^verbatim>\<open>Segment.divide(line, cuts)\<close>
  splits a line at the given columns, each split column becoming the first column of the next
  part; the definition below follows the generator of the library step by step.
\<close>

datatype style = Style nat | NullStyle

datatype segment = Segment (seg_text: string) (seg_style: "style option")

type_synonym line = "segment list"

definition cell_length :: "segment \<Rightarrow> int" where
  "cell_length s = int (length (seg_text s))"

text \<open>Python slices \<^verbatim>\<open>xs[:n]\<close> and \<^verbatim>\<open>xs[n:]\<close>; a negative bound counts from the end.\<close>

definition py_index :: "nat \<Rightarrow> int \<Rightarrow> nat" where
  "py_index len i = (if i < 0 then nat (int len + i) else min (nat i) len)"

definition py_slice :: "'a list \<Rightarrow> int \<Rightarrow> int \<Rightarrow> 'a list" where
  "py_slice xs i j =
     (let a = py_index (length xs) i; b = py_index (length xs) j in take (b - a) (drop a xs))"

definition split_cells :: "segment \<Rightarrow> int \<Rightarrow> segment \<times> segment" where
  "split_cells s n =
     (if n \<ge> int (length (seg_text s)) then (s, Segment [] (seg_style s))
      else (Segment (take (py_index (length (seg_text s)) n) (seg_text s)) (seg_style s),
            Segment (drop (py_index (length (seg_text s)) n) (seg_text s)) (seg_style s)))"

function divide_loop :: "line \<Rightarrow> int \<Rightarrow> int \<Rightarrow> int list \<Rightarrow> line \<Rightarrow> line list" where
  "divide_loop [] pos ct rest acc = [acc]"
| "divide_loop (s # segs) pos ct rest acc =
     (if seg_text s = [] then divide_loop segs pos ct rest acc
      else let end_pos = pos + cell_length s in
        if end_pos < ct then divide_loop segs end_pos ct rest (acc @ [s])
        else if end_pos = ct then
          (acc @ [s]) # (case rest of [] \<Rightarrow> [] | c # cs \<Rightarrow> divide_loop segs end_pos c cs [])
        else
          (acc @ [fst (split_cells s (ct - pos))]) #
            (case rest of [] \<Rightarrow> []
             | c # cs \<Rightarrow> divide_loop (snd (split_cells s (ct - pos)) # segs) ct c cs []))"
  by pat_completeness auto
termination
  by (relation "measure (\<lambda>(segs, pos, ct, rest, acc). length segs + length rest)") auto

fun segment_divide :: "line \<Rightarrow> int list \<Rightarrow> line list" where
  "segment_divide segs [] = []"
| "segment_divide segs (c # cs) = (if c = 0 then [] # segment_divide segs cs else divide_loop segs 0 c cs [])"

section \<open>Widgets and layouts\<close>

text \<open>
  Modelled from the spec: \<^verbatim>\<open>Widget\<close>, \<^verbatim>\<open>Layout\<close> and \<^verbatim>\<open>WidgetPlacement\<close> are external
  collaborators (spec section 6) that are not among the source files. A widget is known by its
  identity; its capabilities are read from an environment. A placement is the triple
  \<open>(sub_region, sub_widget, z)\<close> the arranger unpacks; its third component is the \<^verbatim>\<open>order\<close>
  attribute the placements are sorted by. A layout's \<^verbatim>\<open>arrange\<close> may fail.
\<close>

datatype error = NoWidget | IndexError | KeyError | ValueError | RecursionError | LayoutError

type_synonym wid = nat

datatype placement = WidgetPlacement (p_region: region) (p_widget: "wid option") (p_order: int)

record widget =
  w_size :: size
  z :: "int list"
  visible :: bool
  is_transparent :: bool
  layout :: "(size \<Rightarrow> offset \<Rightarrow> error + (placement list \<times> wid set)) option"
  scroll :: offset
  styles_offset :: "(size \<Rightarrow> size \<Rightarrow> offset) option"
  get_lines :: "line list"
  render_cache :: bool

type_synonym env = "wid \<Rightarrow> widget"

text \<open>\<^verbatim>\<open>widget.clear_render_cache()\<close> drops the cached lines of one widget.\<close>

definition clear_render_cache :: "env \<Rightarrow> wid \<Rightarrow> env" where
  "clear_render_cache env w = env(w := (env w)\<lparr>render_cache := False\<rparr>)"

section \<open>The compositor\<close>

datatype render_region =
  RenderRegion (rr_region: region) (rr_order: "int list") (rr_clip: region) (rr_virtual_size: size)

record reflow_result =
  hidden :: "wid set"
  shown :: "wid set"
  resized :: "wid set"

text \<open>
  A Python \<^verbatim>\<open>dict\<close> keeps its keys in insertion order; assigning to a key that is present
  replaces the value in place.
\<close>

fun dict_set :: "('k \<times> 'v) list \<Rightarrow> 'k \<Rightarrow> 'v \<Rightarrow> ('k \<times> 'v) list" where
  "dict_set [] k v = [(k, v)]"
| "dict_set ((k', v') # d) k v = (if k' = k then (k, v) # d else (k', v') # dict_set d k v)"

definition dict_keys :: "('k \<times> 'v) list \<Rightarrow> 'k set" where
  "dict_keys d = set (map fst d)"

record compositor =
  map_c :: "(wid \<times> render_region) list"
  widgets :: "wid set"
  root :: "wid option"
  size_c :: size
  regions :: "(wid \<times> region \<times> region) list"
  cuts_cache :: "int list list option"
  require_update_flag :: bool
  background :: string

definition init :: compositor where
  "init = \<lparr>map_c = [], widgets = {}, root = None, size_c = Size 0 0, regions = [],
           cuts_cache = None, require_update_flag = True, background = []\<rparr>"

definition check_update :: "compositor \<Rightarrow> bool" where
  "check_update c = require_update_flag c"

definition reset :: "compositor \<Rightarrow> compositor" where
  "reset c = c\<lparr>cuts_cache := None\<rparr>"

definition require_update :: "compositor \<Rightarrow> compositor" where
  "require_update c = (reset (c\<lparr>require_update_flag := True\<rparr>))\<lparr>map_c := [], widgets := {}\<rparr>"

definition reset_update :: "compositor \<Rightarrow> compositor" where
  "reset_update c = c\<lparr>require_update_flag := False\<rparr>"

subsection \<open>Arrangement\<close>

text \<open>
  \<^verbatim>\<open>sorted(placements, key=attrgetter("order"))\<close> is a stable sort, as is insertion sort.
\<close>

definition sort_placements :: "placement list \<Rightarrow> placement list" where
  "sort_placements ps = sort_key p_order ps"

type_synonym arr_state = "(wid \<times> render_region) list \<times> wid set"

text \<open>
  The nested function \<^verbatim>\<open>add_widget\<close> of \<^verbatim>\<open>_arrange_root\<close>, threading the dictionary
  \<^verbatim>\<open>map\<close> and the set \<^verbatim>\<open>widgets\<close> it mutates. The first argument is the remaining recursion
  depth of the interpreter: a widget graph nested deeper than that raises \<^verbatim>\<open>RecursionError\<close>.
  \<open>add_placements\<close> is the loop over the sorted placements.
\<close>

fun add_widget ::
    "nat \<Rightarrow> env \<Rightarrow> wid \<Rightarrow> region \<Rightarrow> int list \<Rightarrow> region \<Rightarrow> arr_state \<Rightarrow> error + arr_state"
  and add_placements ::
    "nat \<Rightarrow> env \<Rightarrow> region \<Rightarrow> offset \<Rightarrow> region \<Rightarrow> placement list \<Rightarrow> region \<Rightarrow> arr_state
      \<Rightarrow> error + (region \<times> arr_state)"
where
  "add_widget 0 env widget region order clip st = Inl RecursionError"
| "add_widget (Suc n) env widget region order clip st =
     (let ws1 = insert widget (snd st);
          layout_offset = (case styles_offset (env widget) of
                             Some resolve \<Rightarrow> resolve (region_size region) (region_size clip)
                           | None \<Rightarrow> ORIGIN)
      in case layout (env widget) of
           None \<Rightarrow>
             Inr (dict_set (fst st) widget
                    (RenderRegion (region_add region layout_offset) order clip (region_size region)),
                  ws1)
         | Some arrange \<Rightarrow>
             (case arrange (region_size region) (scroll (env widget)) of
                Inl e \<Rightarrow> Inl e
              | Inr (placements, arranged_widgets) \<Rightarrow>
                  (case add_placements n env region (scroll (env widget))
                          (intersection clip region) (sort_placements placements)
                          (region_of_size (region_size region))
                          (fst st, ws1 \<union> arranged_widgets) of
                     Inl e \<Rightarrow> Inl e
                   | Inr (total_region, st') \<Rightarrow>
                       Inr (dict_set (fst st') widget
                              (RenderRegion (region_add region layout_offset) order clip
                                 (region_size total_region)),
                            snd st'))))"
| "add_placements n env region scrl sub_clip [] total_region st = Inr (total_region, st)"
| "add_placements n env region scrl sub_clip (p # ps) total_region st =
     (let total_region' = union_region total_region (p_region p) in
      case p_widget p of
        None \<Rightarrow> add_placements n env region scrl sub_clip ps total_region' st
      | Some sub_widget \<Rightarrow>
          (case add_widget n env sub_widget
                  (region_sub (region_add (p_region p) (origin region)) scrl)
                  (z (env sub_widget) @ [p_order p]) sub_clip st of
             Inl e \<Rightarrow> Inl e
           | Inr st' \<Rightarrow> add_placements n env region scrl sub_clip ps total_region' st'))"

definition arrange_root :: "nat \<Rightarrow> env \<Rightarrow> wid \<Rightarrow> error + arr_state" where
  "arrange_root limit env rt =
     add_widget limit env rt (region_of_size (w_size (env rt))) []
       (region_of_size (w_size (env rt))) ([], {})"

subsection \<open>Reflow\<close>

text \<open>
  \<^verbatim>\<open>reflow\<close> returns its result or the error raised by the arrangement, together with the
  compositor as the call leaves it.
\<close>

definition reflow ::
    "nat \<Rightarrow> env \<Rightarrow> compositor \<Rightarrow> wid \<Rightarrow> size \<Rightarrow> (error + reflow_result) \<times> compositor" where
  "reflow limit env c parent sz =
     (let c1 = (reset c)\<lparr>root := Some parent, size_c := sz\<rparr> in
      case arrange_root limit env parent of
        Inl e \<Rightarrow> (Inl e, c1)
      | Inr (new_map, new_widgets) \<Rightarrow>
          (let old_widgets = dict_keys (map_c c1);
               new_keys = dict_keys new_map;
               shown_widgets = new_keys - old_widgets;
               hidden_widgets = old_widgets - new_keys;
               new_renders = map (\<lambda>(w, rr). (w, rr_region rr, rr_clip rr)) new_map;
               resized_widgets =
                 set (map fst (filter (\<lambda>(w, rr). w \<in> old_widgets \<and>
                                          w_size (env w) \<noteq> region_size (rr_region rr)) new_map))
           in (Inr \<lparr>hidden = hidden_widgets, shown = shown_widgets, resized = resized_widgets\<rparr>,
               c1\<lparr>require_update_flag := False, map_c := new_map, regions := new_renders,
                  widgets := new_widgets\<rparr>)))"

subsection \<open>Iteration and hit testing\<close>

text \<open>
  \<^verbatim>\<open>sorted(..., key=..., reverse=True)\<close> keeps the original order of entries with equal keys:
  the list is reversed, sorted by a stable sort, and reversed again. Order tuples compare
  lexicographically.
\<close>

definition sorted_reverse :: "('a \<Rightarrow> 'k::linorder) \<Rightarrow> 'a list \<Rightarrow> 'a list" where
  "sorted_reverse key xs = rev (sort_key key (rev xs))"

text \<open>\<^verbatim>\<open>__iter__\<close>: widget, cropped region, region and virtual size, frontmost first.\<close>

definition iter :: "compositor \<Rightarrow> (wid \<times> region \<times> region \<times> size) list" where
  "iter c =
     map (\<lambda>(w, rr). (w, intersection (rr_region rr) (rr_clip rr), rr_region rr,
                        rr_virtual_size rr))
       (sorted_reverse (\<lambda>item. rr_order (snd item)) (map_c c))"

definition get_offset :: "compositor \<Rightarrow> wid \<Rightarrow> error + offset" where
  "get_offset c w =
     (case map_of (map_c c) w of None \<Rightarrow> Inl NoWidget | Some rr \<Rightarrow> Inr (origin (rr_region rr)))"

fun first_containing ::
    "(wid \<times> region \<times> region \<times> size) list \<Rightarrow> int \<Rightarrow> int \<Rightarrow> error + (wid \<times> region)" where
  "first_containing [] px py = Inl NoWidget"
| "first_containing ((w, cropped_region, region, vs) # rest) px py =
     (if contains cropped_region px py then Inr (w, region) else first_containing rest px py)"

definition get_widget_at :: "compositor \<Rightarrow> int \<Rightarrow> int \<Rightarrow> error + (wid \<times> region)" where
  "get_widget_at c px py = first_containing (iter c) px py"

text \<open>
  Python indexing \<^verbatim>\<open>xs[i]\<close>: a negative index counts from the end, an index out of range
  raises \<^verbatim>\<open>IndexError\<close>.
\<close>

definition py_norm :: "nat \<Rightarrow> int \<Rightarrow> int" where
  "py_norm len i = (if i < 0 then int len + i else i)"

definition py_get :: "'a list \<Rightarrow> int \<Rightarrow> error + 'a" where
  "py_get xs i =
     (if 0 \<le> py_norm (length xs) i \<and> py_norm (length xs) i < int (length xs)
      then Inr (xs ! nat (py_norm (length xs) i))
      else Inl IndexError)"

text \<open>\<^verbatim>\<open>segment.style or Style.null()\<close>: a missing or null style reads as the null style.\<close>

definition style_or_null :: "style option \<Rightarrow> style" where
  "style_or_null st = (case st of Some (Style n) \<Rightarrow> Style n | _ \<Rightarrow> NullStyle)"

fun style_walk :: "line \<Rightarrow> int \<Rightarrow> int \<Rightarrow> style" where
  "style_walk [] end_pos px = NullStyle"
| "style_walk (s # segs) end_pos px =
     (if px < end_pos + cell_length s then style_or_null (seg_style s)
      else style_walk segs (end_pos + cell_length s) px)"

definition get_style_at :: "env \<Rightarrow> compositor \<Rightarrow> int \<Rightarrow> int \<Rightarrow> error + style" where
  "get_style_at env c px py =
     (case get_widget_at c px py of
        Inl e \<Rightarrow> (if e = NoWidget then Inr NullStyle else Inl e)
      | Inr (w, region) \<Rightarrow>
          if w \<notin> dict_keys (regions c) then Inr NullStyle
          else let lines = get_lines (env w); lx = px - r_x region; ly = py - r_y region in
            if ly > int (length lines) then Inr NullStyle
            else (case py_get lines ly of
                    Inl e \<Rightarrow> Inl e
                  | Inr ln \<Rightarrow> Inr (style_walk ln 0 lx)))"

definition get_widget_region :: "compositor \<Rightarrow> wid \<Rightarrow> error + region" where
  "get_widget_region c w =
     (case map_of (map_c c) w of None \<Rightarrow> Inl NoWidget | Some rr \<Rightarrow> Inr (rr_region rr))"

subsection \<open>Cuts\<close>

text \<open>\<^verbatim>\<open>sorted(set(cut_set))\<close>: the distinct columns in increasing order.\<close>

definition sorted_set :: "int list \<Rightarrow> int list" where
  "sorted_set xs = sort (remdups xs)"

text \<open>
  \<^verbatim>\<open>for cut in cuts[y : y + region_height]: cut.extend(region_cuts)\<close>: the rows of the slice
  are extended in place.
\<close>

definition add_cuts :: "int list list \<Rightarrow> region \<Rightarrow> int list list" where
  "add_cuts cs r =
     (let a = py_index (length cs) (r_y r); b = py_index (length cs) (r_y2 r)
      in map (\<lambda>(i, row). if a \<le> i \<and> i < b then row @ [r_x r, r_x2 r] else row)
           (enumerate 0 cs))"

text \<open>The body of the loop over \<^verbatim>\<open>self.map.values()\<close> in the property \<^verbatim>\<open>cuts\<close>.\<close>

definition cuts_step :: "region \<Rightarrow> wid \<times> render_region \<Rightarrow> int list list \<Rightarrow> int list list" where
  "cuts_step screen_region item cs =
     (let region = intersection (rr_region (snd item)) (rr_clip (snd item))
      in if region_bool region \<and> contains_region screen_region region
         then add_cuts cs region else cs)"

definition compute_cuts :: "compositor \<Rightarrow> int list list" where
  "compute_cuts c =
     (let width = s_width (size_c c); height = s_height (size_c c);
          screen_region = region_of_size (size_c c);
          initial = replicate (nat height) [0, width];
          filled = fold (cuts_step screen_region) (map_c c) initial
      in map sorted_set filled)"

text \<open>The property \<^verbatim>\<open>cuts\<close>: the cached value when there is one.\<close>

definition cuts :: "compositor \<Rightarrow> int list list" where
  "cuts c = (case cuts_cache c of Some cs \<Rightarrow> cs | None \<Rightarrow> compute_cuts c)"

subsection \<open>Rendering\<close>

definition y_range :: "region \<Rightarrow> int list" where
  "y_range r = map (\<lambda>i. r_y r + int i) [0..<nat (r_height r)]"

text \<open>
  One step of the generator \<^verbatim>\<open>_get_renders\<close> for a visible, non-transparent widget: nothing
  when the clip misses the region, the widget's lines when the clip contains the region, and
  the lines cropped to the clip otherwise.
\<close>

definition middle_slice :: "line list \<Rightarrow> error + line" where
  "middle_slice parts = (case parts of a # b # rest \<Rightarrow> Inr b | _ \<Rightarrow> Inl IndexError)"

fun collect :: "(error + 'a) list \<Rightarrow> error + 'a list" where
  "collect [] = Inr []"
| "collect (x # xs) =
     (case x of Inl e \<Rightarrow> Inl e
      | Inr v \<Rightarrow> (case collect xs of Inl e \<Rightarrow> Inl e | Inr vs \<Rightarrow> Inr (v # vs)))"

definition get_render ::
    "env \<Rightarrow> wid \<Rightarrow> region \<Rightarrow> region \<Rightarrow> error + (region \<times> region \<times> line list) option" where
  "get_render env w region clip =
     (if contains_region clip region then Inr (Some (region, clip, get_lines (env w)))
      else if overlaps clip region then
        (let new_region = intersection region clip;
             delta_x = r_x new_region - r_x region;
             delta_y = r_y new_region - r_y region;
             splits = [delta_x, delta_x + r_width new_region];
             lines = py_slice (get_lines (env w)) delta_y (delta_y + r_height new_region)
         in case collect (map (\<lambda>ln. middle_slice (segment_divide ln splits)) lines) of
              Inl e \<Rightarrow> Inl e
            | Inr lines' \<Rightarrow> Inr (Some (region, clip, lines')))
      else Inr None)"

definition widget_regions :: "env \<Rightarrow> compositor \<Rightarrow> (wid \<times> region \<times> int list \<times> region) list" where
  "widget_regions env c =
     (if map_c c \<noteq> [] then
        sorted_reverse (\<lambda>item. fst (snd (snd item)))
          (map (\<lambda>(w, rr). (w, rr_region rr, rr_order rr, rr_clip rr))
             (filter (\<lambda>(w, rr). visible (env w)) (map_c c)))
      else [])"

text \<open>\<^verbatim>\<open>dict.fromkeys(cut_set)\<close>: every cut column mapped to \<^verbatim>\<open>None\<close>.\<close>

definition fromkeys :: "int list \<Rightarrow> (int \<times> line option) list" where
  "fromkeys ks = fold (\<lambda>k d. dict_set d k None) ks []"

text \<open>The innermost loop of \<^verbatim>\<open>render\<close>: the first segments written to a cut stay.\<close>

fun fill_cuts ::
    "(int \<times> line option) list \<Rightarrow> (int \<times> line) list \<Rightarrow> error + (int \<times> line option) list" where
  "fill_cuts chops_line [] = Inr chops_line"
| "fill_cuts chops_line ((ct, segments) # rest) =
     (case map_of chops_line ct of
        None \<Rightarrow> Inl KeyError
      | Some None \<Rightarrow> fill_cuts (dict_set chops_line ct (Some segments)) rest
      | Some (Some present) \<Rightarrow> fill_cuts chops_line rest)"

definition cut_segments :: "line \<Rightarrow> int list \<Rightarrow> int \<Rightarrow> error + line list" where
  "cut_segments ln final_cuts render_x =
     (if length final_cuts = 2 then Inr [ln]
      else (case segment_divide ln (map (\<lambda>ct. ct - render_x) final_cuts) of
              [] \<Rightarrow> Inl ValueError
            | first # others \<Rightarrow> Inr others))"

definition py_set :: "'a list \<Rightarrow> int \<Rightarrow> 'a \<Rightarrow> 'a list" where
  "py_set xs i v = xs[nat (py_norm (length xs) i) := v]"

fun fill_rows ::
    "int list list \<Rightarrow> region \<Rightarrow> (int \<times> line option) list list \<Rightarrow> (int \<times> line) list
      \<Rightarrow> error + (int \<times> line option) list list" where
  "fill_rows cs render_region chops [] = Inr chops"
| "fill_rows cs render_region chops ((y, ln) # rest) =
     (case py_get cs y of
        Inl e \<Rightarrow> Inl e
      | Inr row_cuts \<Rightarrow>
          (let final_cuts = filter (\<lambda>ct. r_x2 render_region \<ge> ct \<and> ct \<ge> r_x render_region) row_cuts
           in case cut_segments ln final_cuts (r_x render_region) of
                Inl e \<Rightarrow> Inl e
              | Inr segs \<Rightarrow>
                  (case py_get chops y of
                     Inl e \<Rightarrow> Inl e
                   | Inr chops_line \<Rightarrow>
                       (case fill_cuts chops_line (zip final_cuts segs) of
                          Inl e \<Rightarrow> Inl e
                        | Inr chops_line' \<Rightarrow>
                            fill_rows cs render_region (py_set chops y chops_line') rest))))"

fun fill_renders ::
    "env \<Rightarrow> int list list \<Rightarrow> (int \<times> line option) list list
      \<Rightarrow> (wid \<times> region \<times> int list \<times> region) list \<Rightarrow> error + (int \<times> line option) list list" where
  "fill_renders env cs chops [] = Inr chops"
| "fill_renders env cs chops ((w, region, order, clip) # rest) =
     (if is_transparent (env w) then fill_renders env cs chops rest
      else (case get_render env w region clip of
              Inl e \<Rightarrow> Inl e
            | Inr None \<Rightarrow> fill_renders env cs chops rest
            | Inr (Some (region', clip', lines)) \<Rightarrow>
                (case fill_rows cs (intersection region' clip') chops
                        (zip (y_range (intersection region' clip')) lines) of
                   Inl e \<Rightarrow> Inl e
                 | Inr chops' \<Rightarrow> fill_renders env cs chops' rest)))"

text \<open>\<^verbatim>\<open>_assemble_chops\<close>: the filled buckets of each row, concatenated in dictionary order.\<close>

definition assemble_bucket :: "(int \<times> line option) list \<Rightarrow> line" where
  "assemble_bucket bucket = concat (map (\<lambda>(k, v). case v of None \<Rightarrow> [] | Some ln \<Rightarrow> ln) bucket)"

definition assemble_chops :: "(int \<times> line option) list list \<Rightarrow> line list" where
  "assemble_chops chops = map assemble_bucket chops"

definition width_view :: "int \<Rightarrow> int \<Rightarrow> line \<Rightarrow> error + line" where
  "width_view crop_x crop_x2 ln =
     (if ln \<noteq> [] then
        (case segment_divide ln [crop_x, crop_x2] of
           [] \<Rightarrow> Inl IndexError
         | [a] \<Rightarrow> Inr a
         | a # b # rest \<Rightarrow> Inr b)
      else Inr ln)"

definition crop_region_of :: "compositor \<Rightarrow> region option \<Rightarrow> region" where
  "crop_region_of c crop =
     (let screen_region = Region 0 0 (s_width (size_c c)) (s_height (size_c c))
      in case crop of
           Some cr \<Rightarrow> if region_bool cr then intersection cr screen_region else screen_region
         | None \<Rightarrow> screen_region)"

definition render_lines :: "env \<Rightarrow> compositor \<Rightarrow> region option \<Rightarrow> error + line list" where
  "render_lines env c crop =
     (let width = s_width (size_c c);
          crop_region = crop_region_of c crop;
          cs = cuts c;
          chops = map fromkeys cs
      in case fill_renders env cs chops (widget_regions env c) of
           Inl e \<Rightarrow> Inl e
         | Inr chops' \<Rightarrow>
             (let lines = assemble_chops (py_slice chops' (r_y crop_region) (r_y2 crop_region))
              in if crop \<noteq> None \<and> (r_x crop_region, r_x2 crop_region) \<noteq> (0, width)
                 then collect (map (width_view (r_x crop_region) (r_x2 crop_region)) lines)
                 else Inr lines))"

text \<open>\<^verbatim>\<open>render\<close> also leaves the computed cuts in the cache.\<close>

definition render :: "env \<Rightarrow> compositor \<Rightarrow> region option \<Rightarrow> (error + line list) \<times> compositor" where
  "render env c crop = (render_lines env c crop, c\<lparr>cuts_cache := Some (cuts c)\<rparr>)"

subsection \<open>Partial update\<close>

datatype layout_update = LayoutUpdate (lu_lines: "line list") (lu_region: region)

definition update_widget ::
    "env \<Rightarrow> compositor \<Rightarrow> wid \<Rightarrow> (error + layout_update option) \<times> env \<times> compositor" where
  "update_widget env c w =
     (case map_of (regions c) w of
        None \<Rightarrow> (Inr None, env, c)
      | Some (region, clip) \<Rightarrow>
          if \<not> region_bool region then (Inr None, env, c)
          else let update_region = intersection region clip in
            if \<not> region_bool update_region then (Inr None, env, c)
            else let env' = clear_render_cache env w;
                     r = render env' c (Some update_region)
                 in (case fst r of
                       Inl e \<Rightarrow> (Inl e, env', snd r)
                     | Inr update_lines \<Rightarrow>
                         (Inr (Some (LayoutUpdate update_lines update_region)), env', snd r)))"

section \<open>Example arrangements\<close>

definition blank :: widget where
  "blank = \<lparr>w_size = Size 0 0, z = [], visible = True, is_transparent = False, layout = None,
     scroll = Offset 0 0, styles_offset = None, get_lines = [], render_cache = True\<rparr>"

text \<open>
  The occlusion scenario of the spec: a transparent root of size 4 by 1 whose layout places
  widget 1 (line \<open>AAAA\<close>) over the whole row and widget 2 (line \<open>BB\<close>) in front of it at
  columns 1 and 2.
\<close>

definition env_occ :: env where
  "env_occ = (\<lambda>_. blank)(
     0 := blank\<lparr>w_size := Size 4 1, is_transparent := True,
        layout := Some (\<lambda>s sc. Inr ([WidgetPlacement (Region 1 0 2 1) (Some 2) 1,
                                     WidgetPlacement (Region 0 0 4 1) (Some 1) 0], {1, 2}))\<rparr>,
     1 := blank\<lparr>w_size := Size 4 1, get_lines := [[Segment ''AAAA'' (Some (Style 1))]]\<rparr>,
     2 := blank\<lparr>w_size := Size 2 1, get_lines := [[Segment ''BB'' (Some (Style 2))]]\<rparr>)"

definition c_occ :: compositor where
  "c_occ = \<lparr>map_c =
     [(1, RenderRegion (Region 0 0 4 1) [0] (Region 0 0 4 1) (Size 4 1)),
      (2, RenderRegion (Region 1 0 2 1) [1] (Region 0 0 4 1) (Size 2 1)),
      (0, RenderRegion (Region 0 0 4 1) [] (Region 0 0 4 1) (Size 4 1))],
     widgets = {0, 1, 2}, root = Some 0, size_c = Size 4 1,
     regions =
       [(1, Region 0 0 4 1, Region 0 0 4 1),
        (2, Region 1 0 2 1, Region 0 0 4 1),
        (0, Region 0 0 4 1, Region 0 0 4 1)],
     cuts_cache = None, require_update_flag = False, background = []\<rparr>"

text \<open>The same widgets, with a root layout that fails.\<close>

definition env_fail :: env where
  "env_fail = env_occ(0 := blank\<lparr>w_size := Size 4 1, is_transparent := True,
                             layout := Some (\<lambda>s sc. Inl LayoutError)\<rparr>)"

text \<open>The occlusion scenario with the front widget transparent, and with it invisible.\<close>

definition env_tr :: env where
  "env_tr = env_occ(2 := (env_occ 2)\<lparr>is_transparent := True\<rparr>)"

definition env_inv :: env where
  "env_inv = env_occ(2 := (env_occ 2)\<lparr>visible := False\<rparr>)"

text \<open>
  A widget placed on a region two rows high that still holds the single line of its previous
  size.
\<close>

definition env_short :: env where
  "env_short = (\<lambda>_. blank)(
     0 := blank\<lparr>w_size := Size 2 2, is_transparent := True,
        layout := Some (\<lambda>s sc. Inr ([WidgetPlacement (Region 0 0 2 2) (Some 1) 0], {1}))\<rparr>,
     1 := blank\<lparr>w_size := Size 2 1, get_lines := [[Segment ''XX'' (Some (Style 1))]]\<rparr>)"

definition c_short :: compositor where
  "c_short = \<lparr>map_c =
     [(1, RenderRegion (Region 0 0 2 2) [0] (Region 0 0 2 2) (Size 2 2)),
      (0, RenderRegion (Region 0 0 2 2) [] (Region 0 0 2 2) (Size 2 2))],
     widgets = {0, 1}, root = Some 0, size_c = Size 2 2,
     regions = [(1, Region 0 0 2 2, Region 0 0 2 2), (0, Region 0 0 2 2, Region 0 0 2 2)],
     cuts_cache = None, require_update_flag = False, background = []\<rparr>"

text \<open>
  A nested arrangement: the root places widget 1 with placement order 5, and the layout of
  widget 1 places widget 2 with placement order 3. Every widget has the empty base \<^verbatim>\<open>z\<close>.
\<close>

definition env_nest :: env where
  "env_nest = (\<lambda>_. blank)(
     0 := blank\<lparr>w_size := Size 4 2,
        layout := Some (\<lambda>s sc. Inr ([WidgetPlacement (Region 0 0 4 2) (Some 1) 5], {1}))\<rparr>,
     1 := blank\<lparr>w_size := Size 4 2,
        layout := Some (\<lambda>s sc. Inr ([WidgetPlacement (Region 1 1 2 1) (Some 2) 3], {2}))\<rparr>,
     2 := blank\<lparr>w_size := Size 2 1, get_lines := [[Segment ''BB'' (Some (Style 2))]]\<rparr>)"

definition m_nest :: "(wid \<times> render_region) list" where
  "m_nest =
     [(2, RenderRegion (Region 1 1 2 1) [3] (Region 0 0 4 2) (Size 2 1)),
      (1, RenderRegion (Region 0 0 4 2) [5] (Region 0 0 4 2) (Size 4 2)),
      (0, RenderRegion (Region 0 0 4 2) [] (Region 0 0 4 2) (Size 4 2))]"

text \<open>
  The order a layout placement gives a widget: the widget's own \<^verbatim>\<open>z\<close> followed by the
  order of a placement that some widget's layout returned for it.
\<close>

inductive placed_order :: "env \<Rightarrow> wid \<Rightarrow> int list \<Rightarrow> bool" for env where
  "layout (env parent) = Some arrange \<Longrightarrow> arrange sz sc = Inr (pl, aw) \<Longrightarrow> p \<in> set pl \<Longrightarrow>
   p_widget p = Some w \<Longrightarrow> placed_order env w (z (env w) @ [p_order p])"

definition orders_placed :: "env \<Rightarrow> (wid \<times> render_region) list \<Rightarrow> bool" where
  "orders_placed env m \<longleftrightarrow> (\<forall>(w, rr) \<in> set m. placed_order env w (rr_order rr))"

text \<open>A root widget four columns wide, reflowed onto a screen two columns wide.\<close>

definition env_wide :: env where
  "env_wide = (\<lambda>_. blank)(
     0 := blank\<lparr>w_size := Size 4 1, get_lines := [[Segment ''WWWW'' (Some (Style 1))]]\<rparr>)"

definition c_wide :: compositor where
  "c_wide = \<lparr>map_c = [(0, RenderRegion (Region 0 0 4 1) [] (Region 0 0 4 1) (Size 4 1))],
     widgets = {0}, root = Some 0, size_c = Size 2 1,
     regions = [(0, Region 0 0 4 1, Region 0 0 4 1)],
     cuts_cache = None, require_update_flag = False, background = []\<rparr>"

text \<open>
  The cells of a line: every character of every segment with the style of its segment. The
  content of a render is compared cell by cell.
\<close>

type_synonym cell = "char \<times> style option"

definition cells :: "line \<Rightarrow> cell list" where
  "cells ln = concat (map (\<lambda>s. map (\<lambda>ch. (ch, seg_style s)) (seg_text s)) ln)"

text \<open>
  Cutting a list of cells that starts at column \<open>p\<close> at the columns \<open>ks\<close>: what dividing a
  line at these columns amounts to on its cells.
\<close>

fun chop :: "'a list \<Rightarrow> int \<Rightarrow> int list \<Rightarrow> 'a list list" where
  "chop xs p [] = []"
| "chop xs p (k # ks) = take (nat (k - p)) xs # chop (drop (nat (k - p)) xs) k ks"

text \<open>The next cut column of a row after the column \<open>k\<close>.\<close>

definition next_cut :: "int list \<Rightarrow> int \<Rightarrow> int" where
  "next_cut ks k = Min {c \<in> set ks. k < c}"

text \<open>
  The body of the loop of \<^verbatim>\<open>render\<close> over the rows of one widget, once the row of cuts and
  the bucket of the row have been read.
\<close>

definition fill_row ::
    "int list \<Rightarrow> region \<Rightarrow> line \<Rightarrow> (int \<times> line option) list \<Rightarrow> error + (int \<times> line option) list" where
  "fill_row row_cuts render_region ln chops_line =
     (let final_cuts = filter (\<lambda>ct. r_x2 render_region \<ge> ct \<and> ct \<ge> r_x render_region) row_cuts
      in case cut_segments ln final_cuts (r_x render_region) of
           Inl e \<Rightarrow> Inl e
         | Inr segs \<Rightarrow> fill_cuts chops_line (zip final_cuts segs))"


text \<open>
  What the fill should leave in the buckets. An entry is one element of the list that
  \<^verbatim>\<open>_get_renders\<close> iterates: widget, region, order and clip. An entry covers a cell when it
  is not transparent and its clipped region contains the cell. After the entries \<open>P\<close> have been
  painted, the bucket of a cut column holds nothing when no entry of \<open>P\<close> covers the column,
  and otherwise the cells of the first covering entry from that column up to the next cut.
\<close>

type_synonym entry = "wid \<times> region \<times> int list \<times> region"

definition entry_clipped :: "entry \<Rightarrow> region" where
  "entry_clipped e = intersection (fst (snd e)) (snd (snd (snd e)))"

definition entry_covers :: "env \<Rightarrow> entry \<Rightarrow> int \<Rightarrow> int \<Rightarrow> bool" where
  "entry_covers env e px py \<longleftrightarrow>
     \<not> is_transparent (env (fst e)) \<and> contains (entry_clipped e) px py"

definition entry_cells :: "env \<Rightarrow> entry \<Rightarrow> int \<Rightarrow> int \<Rightarrow> int \<Rightarrow> cell list" where
  "entry_cells env e py k k' =
     take (nat (k' - k))
       (drop (nat (k - r_x (fst (snd e))))
          (cells (get_lines (env (fst e)) ! nat (py - r_y (fst (snd e))))))"

definition bucket_ok :: "env \<Rightarrow> int list \<Rightarrow> entry list \<Rightarrow> int \<Rightarrow> int \<Rightarrow> line option \<Rightarrow> bool" where
  "bucket_ok env row_cuts P py k v \<longleftrightarrow>
     (case find (\<lambda>e. entry_covers env e k py) P of
        None \<Rightarrow> v = None
      | Some e \<Rightarrow> (\<exists>s. v = Some s \<and> cells s = entry_cells env e py k (next_cut row_cuts k)))"

definition row_inv :: "env \<Rightarrow> int list \<Rightarrow> entry list \<Rightarrow> int \<Rightarrow> (int \<times> line option) list \<Rightarrow> bool" where
  "row_inv env row_cuts P py cl \<longleftrightarrow>
     map fst cl = row_cuts \<and>
     (\<forall>k \<in> set row_cuts. \<exists>v. map_of cl k = Some v \<and> bucket_ok env row_cuts P py k v)"

definition entry_ok :: "env \<Rightarrow> int list list \<Rightarrow> entry \<Rightarrow> bool" where
  "entry_ok env K e \<longleftrightarrow>
     (\<not> is_transparent (env (fst e)) \<longrightarrow>
        0 < r_width (fst (snd e)) \<and> 0 < r_height (fst (snd e)) \<and>
        0 \<le> r_width (snd (snd (snd e))) \<and> 0 \<le> r_height (snd (snd (snd e))) \<and>
        length (get_lines (env (fst e))) = nat (r_height (fst (snd e))) \<and>
        (\<forall>ln \<in> set (get_lines (env (fst e))). int (length (cells ln)) = r_width (fst (snd e))) \<and>
        (region_bool (entry_clipped e) \<longrightarrow>
           0 \<le> r_y (entry_clipped e) \<and> r_y2 (entry_clipped e) \<le> int (length K) \<and>
           (\<forall>i. r_y (entry_clipped e) \<le> int i \<and> int i < r_y2 (entry_clipped e) \<longrightarrow>
                r_x (entry_clipped e) \<in> set (K ! i) \<and> r_x2 (entry_clipped e) \<in> set (K ! i))))"

text \<open>The state of all buckets after the entries \<open>P\<close> have been painted.\<close>

definition chops_inv ::
    "env \<Rightarrow> int list list \<Rightarrow> entry list \<Rightarrow> (int \<times> line option) list list \<Rightarrow> bool" where
  "chops_inv env K P chops \<longleftrightarrow>
     length chops = length K \<and> (\<forall>i < length K. row_inv env (K ! i) P (int i) (chops ! i))"

text \<open>
  The widgets the renderer draws and the cells they show. An item of the map is drawn when its
  widget is visible and not transparent; it covers a cell when it is drawn and its clipped
  region contains the cell; the cell it shows there is the cell of its own lines at the
  position relative to its region.
\<close>

definition drawn :: "env \<Rightarrow> wid \<times> render_region \<Rightarrow> bool" where
  "drawn env item \<longleftrightarrow> visible (env (fst item)) \<and> \<not> is_transparent (env (fst item))"

definition clipped :: "render_region \<Rightarrow> region" where
  "clipped rr = intersection (rr_region rr) (rr_clip rr)"

definition covers :: "env \<Rightarrow> wid \<times> render_region \<Rightarrow> int \<Rightarrow> int \<Rightarrow> bool" where
  "covers env item px py \<longleftrightarrow> drawn env item \<and> contains (clipped (snd item)) px py"

definition widget_cell :: "env \<Rightarrow> wid \<times> render_region \<Rightarrow> int \<Rightarrow> int \<Rightarrow> cell" where
  "widget_cell env item px py =
     cells (get_lines (env (fst item)) ! nat (py - r_y (rr_region (snd item))))
       ! nat (px - r_x (rr_region (snd item)))"

text \<open>
  The arrangement the renderer expects (spec, section 6): the cached cuts, when there are any,
  are those of the map; the screen has a non-negative width; and every drawn widget has a
  region of positive size, a clip of non-negative size, a clipped region that lies within the
  screen unless it is empty, and as many lines as its region has rows, each as many cells long
  as its region has columns.
\<close>

definition well_arranged :: "env \<Rightarrow> compositor \<Rightarrow> bool" where
  "well_arranged env c \<longleftrightarrow>
     (cuts_cache c = None \<or> cuts_cache c = Some (compute_cuts c)) \<and>
     0 \<le> s_width (size_c c) \<and>
     (\<forall>item \<in> set (map_c c). drawn env item \<longrightarrow>
        0 < r_width (rr_region (snd item)) \<and> 0 < r_height (rr_region (snd item)) \<and>
        0 \<le> r_width (rr_clip (snd item)) \<and> 0 \<le> r_height (rr_clip (snd item)) \<and>
        (region_bool (clipped (snd item)) \<longrightarrow>
           contains_region (region_of_size (size_c c)) (clipped (snd item))) \<and>
        length (get_lines (env (fst item))) = nat (r_height (rr_region (snd item))) \<and>
        (\<forall>ln \<in> set (get_lines (env (fst item))).
           int (length (cells ln)) = r_width (rr_region (snd item))))"

text \<open>The entry \<^verbatim>\<open>_get_renders\<close> builds from an item of the map.\<close>

definition entry_of :: "wid \<times> render_region \<Rightarrow> entry" where
  "entry_of item = (fst item, rr_region (snd item), rr_order (snd item), rr_clip (snd item))"

text \<open>The cells a bucket should hold once the entries \<open>P\<close> have been painted.\<close>

definition bucket_cells :: "env \<Rightarrow> int list \<Rightarrow> entry list \<Rightarrow> int \<Rightarrow> int \<Rightarrow> cell list" where
  "bucket_cells env row_cuts P py k =
     (case find (\<lambda>e. entry_covers env e k py) P of
        None \<Rightarrow> []
      | Some e \<Rightarrow> entry_cells env e py k (next_cut row_cuts k))"

text \<open>
  An item of the map is a source of cuts for the row \<open>i\<close> when it passes the guard of the
  property \<^verbatim>\<open>cuts\<close> (its clipped region is not empty and lies within the screen) and the
  rows of its clipped region include \<open>i\<close>.
\<close>

definition cut_source :: "size \<Rightarrow> wid \<times> render_region \<Rightarrow> nat \<Rightarrow> bool" where
  "cut_source sz item i \<longleftrightarrow>
     region_bool (intersection (rr_region (snd item)) (rr_clip (snd item))) \<and>
     contains_region (region_of_size sz) (intersection (rr_region (snd item)) (rr_clip (snd item))) \<and>
     r_y (intersection (rr_region (snd item)) (rr_clip (snd item))) \<le> int i \<and>
     int i < r_y2 (intersection (rr_region (snd item)) (rr_clip (snd item)))"

text \<open>The cells of a whole row once every entry has been painted.\<close>

definition row_cells :: "env \<Rightarrow> compositor \<Rightarrow> int \<Rightarrow> cell list" where
  "row_cells env c py =
     concat (map (bucket_cells env (cuts c ! nat py) (widget_regions env c) py) (cuts c ! nat py))"

text \<open>
  A cell is covered when some drawn item of the map covers it. An item is frontmost at a cell
  when it covers the cell and every other item covering the cell has a smaller order.
\<close>

definition covered :: "env \<Rightarrow> compositor \<Rightarrow> int \<Rightarrow> int \<Rightarrow> bool" where
  "covered env c px py \<longleftrightarrow> (\<exists>b \<in> set (map_c c). covers env b px py)"

definition frontmost :: "env \<Rightarrow> compositor \<Rightarrow> wid \<times> render_region \<Rightarrow> int \<Rightarrow> int \<Rightarrow> bool" where
  "frontmost env c a px py \<longleftrightarrow>
     a \<in> set (map_c c) \<and> covers env a px py \<and>
     (\<forall>b \<in> set (map_c c). b \<noteq> a \<and> covers env b px py \<longrightarrow> rr_order (snd b) < rr_order (snd a))"

text \<open>
  Three overlapping widgets on an opaque root: widget 2 at the back and widget 1 in front of
  it, both over the whole row, and widget 3 in front of both on columns 1 and 2.
\<close>

definition env_three :: env where
  "env_three = (\<lambda>_. blank)(
     0 := blank\<lparr>w_size := Size 4 1, get_lines := [[Segment ''....'' None]],
        layout := Some (\<lambda>s sc. Inr ([WidgetPlacement (Region 0 0 4 1) (Some 1) 1,
                                     WidgetPlacement (Region 0 0 4 1) (Some 2) 0,
                                     WidgetPlacement (Region 1 0 2 1) (Some 3) 2], {1, 2, 3}))\<rparr>,
     1 := blank\<lparr>w_size := Size 4 1, get_lines := [[Segment ''AAAA'' (Some (Style 1))]]\<rparr>,
     2 := blank\<lparr>w_size := Size 4 1, get_lines := [[Segment ''BBBB'' (Some (Style 2))]]\<rparr>,
     3 := blank\<lparr>w_size := Size 2 1, get_lines := [[Segment ''CC'' (Some (Style 3))]]\<rparr>)"

definition c_three :: compositor where
  "c_three = \<lparr>map_c =
     [(2, RenderRegion (Region 0 0 4 1) [0] (Region 0 0 4 1) (Size 4 1)),
      (1, RenderRegion (Region 0 0 4 1) [1] (Region 0 0 4 1) (Size 4 1)),
      (3, RenderRegion (Region 1 0 2 1) [2] (Region 0 0 4 1) (Size 2 1)),
      (0, RenderRegion (Region 0 0 4 1) [] (Region 0 0 4 1) (Size 4 1))],
     widgets = {0, 1, 2, 3}, root = Some 0, size_c = Size 4 1,
     regions =
       [(2, Region 0 0 4 1, Region 0 0 4 1),
        (1, Region 0 0 4 1, Region 0 0 4 1),
        (3, Region 1 0 2 1, Region 0 0 4 1),
        (0, Region 0 0 4 1, Region 0 0 4 1)],
     cuts_cache = None, require_update_flag = False, background = []\<rparr>"



text \<open>
  A transparent root whose children leave columns 0 and 1 free: widget 1 on columns 2 and 3,
  and widget 2 in front of it on column 3.
\<close>

definition env_hole :: env where
  "env_hole = (\<lambda>_. blank)(
     0 := blank\<lparr>w_size := Size 4 1, is_transparent := True,
        layout := Some (\<lambda>s sc. Inr ([WidgetPlacement (Region 2 0 2 1) (Some 1) 0,
                                     WidgetPlacement (Region 3 0 1 1) (Some 2) 1], {1, 2}))\<rparr>,
     1 := blank\<lparr>w_size := Size 2 1, get_lines := [[Segment ''AA'' (Some (Style 1))]]\<rparr>,
     2 := blank\<lparr>w_size := Size 1 1, get_lines := [[Segment ''B'' (Some (Style 2))]]\<rparr>)"

definition c_hole :: compositor where
  "c_hole = \<lparr>map_c =
     [(1, RenderRegion (Region 2 0 2 1) [0] (Region 0 0 4 1) (Size 2 1)),
      (2, RenderRegion (Region 3 0 1 1) [1] (Region 0 0 4 1) (Size 1 1)),
      (0, RenderRegion (Region 0 0 4 1) [] (Region 0 0 4 1) (Size 4 1))],
     widgets = {0, 1, 2}, root = Some 0, size_c = Size 4 1,
     regions =
       [(1, Region 2 0 2 1, Region 0 0 4 1),
        (2, Region 3 0 1 1, Region 0 0 4 1),
        (0, Region 0 0 4 1, Region 0 0 4 1)],
     cuts_cache = None, require_update_flag = False, background = []\<rparr>"

section \<open>Dictionaries\<close>

lemma map_of_dict_set: "map_of (dict_set d k v) k' = (if k' = k then Some v else map_of d k')"
  by (induction d k v rule: dict_set.induct) auto



section \<open>Arrangement and reflow\<close>



lemma reflow_occ:
  "reflow 10 env_occ init 0 (Size 4 1) =
     (Inr \<lparr>hidden = {}, shown = {0, 1, 2}, resized = {}\<rparr>, c_occ)"
  by code_simp



text \<open>
  C8. When the arrangement inside a reflow raises, the reflow raises with \<^verbatim>\<open>map\<close>,
  \<^verbatim>\<open>regions\<close> and \<^verbatim>\<open>widgets\<close> holding their previous values.
\<close>

theorem reflow_raises_keeps_arrangement:
  assumes "reflow limit env c parent sz = (Inl e, c')"
  shows "map_c c' = map_c c \<and> regions c' = regions c \<and> widgets c' = widgets c"
  using assms by (auto simp: reflow_def Let_def reset_def split: sum.splits)

lemma reflow_fail:
  "reflow 10 env_fail c_occ 0 (Size 8 2) =
     (Inl LayoutError, c_occ\<lparr>root := Some 0, size_c := Size 8 2\<rparr>)"
  by code_simp

theorem reflow_raises_keeps_arrangement_witness:
  "reflow 10 env_fail c_occ 0 (Size 8 2) =
     (Inl LayoutError, c_occ\<lparr>root := Some 0, size_c := Size 8 2\<rparr>)
   \<and> map_c (c_occ\<lparr>root := Some 0, size_c := Size 8 2\<rparr>) = map_c c_occ
   \<and> regions (c_occ\<lparr>root := Some 0, size_c := Size 8 2\<rparr>) = regions c_occ
   \<and> widgets (c_occ\<lparr>root := Some 0, size_c := Size 8 2\<rparr>) = widgets c_occ"
  using reflow_raises_keeps_arrangement[OF reflow_fail] reflow_fail by simp

section \<open>Hit testing\<close>

lemma get_widget_at_empty: "map_c c = [] \<Longrightarrow> get_widget_at c px py = Inl NoWidget"
  by (simp add: get_widget_at_def iter_def sorted_reverse_def)

lemma render_map: "map_c (snd (render env c crop)) = map_c c"
  by (simp add: render_def)

lemma update_widget_map: "map_c (snd (snd (update_widget env c w))) = map_c c"
  by (auto simp: update_widget_def render_def Let_def split: option.splits sum.splits)

text \<open>
  C7, at the failing input. Widget 1 is arranged on a region two rows high and reports one
  line; the style query at the cell \<open>(0, 1)\<close> of its second row passes the guard
  \<^verbatim>\<open>y > len(lines)\<close> with \<open>y = len(lines) = 1\<close> and indexes past the end of the lines.
\<close>

theorem get_style_at_raises:
  "reflow 10 env_short init 0 (Size 2 2) =
      (Inr \<lparr>hidden = {}, shown = {0, 1}, resized = {}\<rparr>, c_short)
   \<and> get_style_at env_short c_short 0 1 = Inl IndexError"
  by code_simp

section \<open>Requiring an update\<close>

text \<open>
  C9. \<^verbatim>\<open>require_update\<close> sets the flag, drops the cached cuts and empties \<^verbatim>\<open>map\<close> and
  \<^verbatim>\<open>widgets\<close>. Until the next reflow (also after a render or a widget update) no widget is
  found at any coordinate, and the reflow that follows reports nothing hidden and every widget
  of the new arrangement as shown.
\<close>

theorem require_update_empties:
  assumes "reflow limit env (require_update c) parent sz = (Inr res, c')"
  shows "require_update_flag (require_update c) \<and> cuts_cache (require_update c) = None
       \<and> map_c (require_update c) = [] \<and> widgets (require_update c) = {}
       \<and> get_widget_at (require_update c) px py = Inl NoWidget
       \<and> get_widget_at (snd (render env' (require_update c) crop)) px py = Inl NoWidget
       \<and> get_widget_at (snd (snd (update_widget env' (require_update c) w))) px py = Inl NoWidget
       \<and> hidden res = {} \<and> shown res = dict_keys (map_c c')"
proof -
  have m: "map_c (require_update c) = []" by (simp add: require_update_def reset_def)
  from assms obtain m' ws where ar: "arrange_root limit env parent = Inr (m', ws)"
    by (auto simp: reflow_def Let_def split: sum.splits)
  from assms ar have "hidden res = {}" "shown res = dict_keys (map_c c')"
    by (force simp: reflow_def Let_def reset_def m dict_keys_def)+
  moreover have "get_widget_at (snd (render env' (require_update c) crop)) px py = Inl NoWidget"
    by (rule get_widget_at_empty) (simp add: render_map m)
  moreover have
    "get_widget_at (snd (snd (update_widget env' (require_update c) w))) px py = Inl NoWidget"
    by (rule get_widget_at_empty) (simp add: update_widget_map m)
  ultimately show ?thesis
    by (simp add: get_widget_at_empty m) (simp add: require_update_def reset_def)
qed

lemma reflow_after_require_update:
  "reflow 10 env_occ (require_update c_occ) 0 (Size 4 1) =
     (Inr \<lparr>hidden = {}, shown = {0, 1, 2}, resized = {}\<rparr>, c_occ)"
  by code_simp

theorem require_update_empties_witness:
  "reflow 10 env_occ (require_update c_occ) 0 (Size 4 1) =
     (Inr \<lparr>hidden = {}, shown = {0, 1, 2}, resized = {}\<rparr>, c_occ)
   \<and> map_c (require_update c_occ) = []
   \<and> get_widget_at c_occ 1 0 = Inr (2, Region 1 0 2 1)
   \<and> get_widget_at (require_update c_occ) 1 0 = Inl NoWidget
   \<and> shown \<lparr>hidden = {}, shown = {0, 1, 2::nat}, resized = {}\<rparr> = dict_keys (map_c c_occ)"
  using require_update_empties[OF reflow_after_require_update, of 1 0] reflow_after_require_update
  by (simp add: get_widget_at_def) code_simp

section \<open>Order keys of arranged widgets\<close>

lemma set_dict_set: "set (dict_set d k v) \<subseteq> insert (k, v) (set d)"
  by (induction d k v rule: dict_set.induct) auto

lemma orders_placed_dict_set:
  "orders_placed env m \<Longrightarrow> (w', rr) \<in> set (dict_set m w v) \<Longrightarrow>
     (w' = w \<and> rr = v) \<or> placed_order env w' (rr_order rr)"
  using set_dict_set[of m w v] by (auto simp: orders_placed_def)

lemma add_placements_orders:
  assumes W: "\<And>w region order clip st st'.
     add_widget n env w region order clip st = Inr st' \<Longrightarrow> orders_placed env (fst st) \<Longrightarrow>
     placed_order env w order \<Longrightarrow> orders_placed env (fst st')"
  shows "add_placements n env region scrl sub_clip ps tot st = Inr (tot', st') \<Longrightarrow>
     layout (env parent) = Some arrange \<Longrightarrow> arrange sz sc = Inr (pl, aw) \<Longrightarrow>
     set ps \<subseteq> set pl \<Longrightarrow> orders_placed env (fst st) \<Longrightarrow> orders_placed env (fst st')"
proof (induction ps arbitrary: tot st)
  case Nil
  then show ?case by simp
next
  case (Cons p ps)
  from Cons.prems(4) have rest: "set ps \<subseteq> set pl" and p: "p \<in> set pl" by auto
  show ?case
  proof (cases "p_widget p")
    case None
    with Cons.prems(1) have "add_placements n env region scrl sub_clip ps
        (union_region tot (p_region p)) st = Inr (tot', st')"
      by (simp add: Let_def)
    from Cons.IH[OF this Cons.prems(2,3) rest Cons.prems(5)] show ?thesis .
  next
    case (Some sw)
    with Cons.prems(1) obtain st1 where
      aw: "add_widget n env sw (region_sub (region_add (p_region p) (origin region)) scrl)
             (z (env sw) @ [p_order p]) sub_clip st = Inr st1" and
      ap: "add_placements n env region scrl sub_clip ps
             (union_region tot (p_region p)) st1 = Inr (tot', st')"
      by (auto simp: Let_def split: sum.splits)
    have "placed_order env sw (z (env sw) @ [p_order p])"
      using placed_order.intros[of env parent arrange sz sc pl aw p sw] Cons.prems(2,3) p Some
      by simp
    from W[OF aw Cons.prems(5) this] have "orders_placed env (fst st1)" .
    from Cons.IH[OF ap Cons.prems(2,3) rest this] show ?thesis .
  qed
qed

lemma add_widget_entry:
  "add_widget n env w region order clip st = Inr st' \<Longrightarrow> orders_placed env (fst st) \<Longrightarrow>
     \<exists>m rr. fst st' = dict_set m w rr \<and> rr_order rr = order \<and> orders_placed env m"
proof (induction n arbitrary: w region order clip st st')
  case 0
  then show ?case by simp
next
  case (Suc n)
  have W: "\<And>w region order clip st st'.
     add_widget n env w region order clip st = Inr st' \<Longrightarrow> orders_placed env (fst st) \<Longrightarrow>
     placed_order env w order \<Longrightarrow> orders_placed env (fst st')"
  proof -
    fix w region order clip st st'
    assume a: "add_widget n env w region order clip st = Inr st'" "orders_placed env (fst st)"
       and b: "placed_order env w order"
    from Suc.IH[OF a] obtain m rr where
      m: "fst st' = dict_set m w rr" "rr_order rr = order" "orders_placed env m" by blast
    show "orders_placed env (fst st')"
      unfolding orders_placed_def
    proof (clarify)
      fix w' rr' assume "(w', rr') \<in> set (fst st')"
      with m(1) orders_placed_dict_set[OF m(3), of w' rr' w rr]
      have "(w' = w \<and> rr' = rr) \<or> placed_order env w' (rr_order rr')" by simp
      with b m(2) show "placed_order env w' (rr_order rr')" by auto
    qed
  qed
  show ?case
  proof (cases "layout (env w)")
    case None
    with Suc.prems(1) have "fst st' = dict_set (fst st) w
        (RenderRegion (region_add region (case styles_offset (env w) of
                             Some resolve \<Rightarrow> resolve (region_size region) (region_size clip)
                           | None \<Rightarrow> ORIGIN)) order clip (region_size region))"
      by (auto simp: Let_def)
    with Suc.prems(2) show ?thesis by (metis render_region.sel(2))
  next
    case (Some arrange)
    with Suc.prems(1) obtain pl aw tot' m' where
      ar: "arrange (region_size region) (scroll (env w)) = Inr (pl, aw)" and
      ap: "add_placements n env region (scroll (env w)) (intersection clip region)
             (sort_placements pl) (region_of_size (region_size region))
             (fst st, insert w (snd st) \<union> aw) = Inr (tot', m')" and
      st': "fst st' = dict_set (fst m') w
        (RenderRegion (region_add region (case styles_offset (env w) of
                             Some resolve \<Rightarrow> resolve (region_size region) (region_size clip)
                           | None \<Rightarrow> ORIGIN)) order clip (region_size tot'))"
      by (auto simp: Let_def split: sum.splits prod.splits)
    have sub: "set (sort_placements pl) \<subseteq> set pl"
      by (simp add: sort_placements_def)
    from add_placements_orders[OF W ap Some ar sub] Suc.prems(2)
    have "orders_placed env (fst m')" by simp
    with st' show ?thesis by (metis render_region.sel(2))
  qed
qed

lemma arrange_nest: "arrange_root 10 env_nest 0 = Inr (m_nest, {0, 1, 2})"
  by code_simp

text \<open>
  C2, as the code has it. In the map returned by the arranger the root has the empty order,
  and every other widget has as its order its own base \<^verbatim>\<open>z\<close> tuple followed by the order
  component of a placement that the layout of some arranged widget returned for it. The order
  of the placing widget is not part of the child's order.
\<close>

theorem child_order_is_own_z_plus_placement:
  assumes "arrange_root limit env rt = Inr (m, ws)" and "(w, rr) \<in> set m"
  shows "(w = rt \<and> rr_order rr = []) \<or>
         (\<exists>parent arrange sz sc pl aw p. layout (env parent) = Some arrange \<and>
            arrange sz sc = Inr (pl, aw) \<and> p \<in> set pl \<and> p_widget p = Some w \<and>
            rr_order rr = z (env w) @ [p_order p])"
proof -
  have "orders_placed env (fst ([]::(wid \<times> render_region) list, {}::wid set))"
    by (simp add: orders_placed_def)
  from add_widget_entry[OF assms(1)[unfolded arrange_root_def] this]
  obtain m0 rr0 where m0: "m = dict_set m0 rt rr0" "rr_order rr0 = []" "orders_placed env m0"
    by auto
  from orders_placed_dict_set[OF m0(3), of w rr rt rr0] assms(2) m0(1)
  have "(w = rt \<and> rr = rr0) \<or> placed_order env w (rr_order rr)" by simp
  then show ?thesis
  proof
    assume "w = rt \<and> rr = rr0" with m0(2) show ?thesis by simp
  next
    assume "placed_order env w (rr_order rr)"
    then show ?thesis by (cases rule: placed_order.cases) blast
  qed
qed

theorem child_order_is_own_z_plus_placement_witness:
  "arrange_root 10 env_nest 0 = Inr (m_nest, {0, 1, 2})
   \<and> (2, RenderRegion (Region 1 1 2 1) [3] (Region 0 0 4 2) (Size 2 1)) \<in> set m_nest
   \<and> (\<exists>parent arrange sz sc pl aw p. layout (env_nest parent) = Some arrange \<and>
            arrange sz sc = Inr (pl, aw) \<and> p \<in> set pl \<and> p_widget p = Some 2 \<and>
            [3] = z (env_nest 2) @ [p_order p])"
proof -
  have mem: "(2, RenderRegion (Region 1 1 2 1) [3] (Region 0 0 4 2) (Size 2 1)) \<in> set m_nest"
    by (simp add: m_nest_def)
  from child_order_is_own_z_plus_placement[OF arrange_nest mem] arrange_nest mem
  show ?thesis by simp
qed

text \<open>
  C2, as stated, fails on the nested arrangement: widget 1 has order \<open>[5]\<close> and its layout
  places widget 2 with placement order 3, but the order recorded for widget 2 is \<open>[3]\<close>, not
  \<open>[5, 3]\<close>; it does not extend the order of widget 1, and widget 1 does not sort before it.
\<close>

theorem child_order_not_parent_prefix:
  "arrange_root 10 env_nest 0 = Inr (m_nest, {0, 1, 2})
   \<and> map_of m_nest 1 = Some (RenderRegion (Region 0 0 4 2) [5] (Region 0 0 4 2) (Size 4 2))
   \<and> map_of m_nest 2 = Some (RenderRegion (Region 1 1 2 1) [3] (Region 0 0 4 2) (Size 2 1))
   \<and> [3] \<noteq> [5] @ [3::int]
   \<and> \<not> ([5::int] < [3])"
  by code_simp

section \<open>Cuts\<close>

lemma sorted_hd_least:
  "sorted xs \<Longrightarrow> (l::int) \<in> set xs \<Longrightarrow> \<forall>v \<in> set xs. l \<le> v \<Longrightarrow> hd xs = l"
  by (cases xs) (auto simp: order.antisym)

lemma sorted_last_greatest:
  "sorted xs \<Longrightarrow> (g::int) \<in> set xs \<Longrightarrow> \<forall>v \<in> set xs. v \<le> g \<Longrightarrow> last xs = g"
proof (induction xs)
  case Nil
  then show ?case by simp
next
  case (Cons x xs)
  show ?case
  proof (cases "xs = []")
    case True
    with Cons.prems show ?thesis by simp
  next
    case False
    then obtain y where y: "y \<in> set xs" by (cases xs) auto
    have "g \<in> set xs"
    proof (rule ccontr)
      assume "g \<notin> set xs"
      with Cons.prems(2) have "g = x" by simp
      with Cons.prems(1,3) y have "y = g" by (auto simp: order.antisym)
      with y \<open>g \<notin> set xs\<close> show False by simp
    qed
    with Cons False show ?thesis by simp
  qed
qed

lemma sorted_set_props:
  "sorted_wrt (<) (sorted_set xs)" "set (sorted_set xs) = set xs"
  by (simp_all add: sorted_set_def strict_sorted_iff)

lemma length_add_cuts [simp]: "length (add_cuts cs r) = length cs"
  by (simp add: add_cuts_def Let_def)

lemma nth_add_cuts:
  "i < length cs \<Longrightarrow> add_cuts cs r ! i =
     (if py_index (length cs) (r_y r) \<le> i \<and> i < py_index (length cs) (r_y2 r)
      then cs ! i @ [r_x r, r_x2 r] else cs ! i)"
  by (simp add: add_cuts_def Let_def nth_enumerate_eq)

lemma length_cuts_step [simp]: "length (cuts_step s item cs) = length cs"
  by (simp add: cuts_step_def Let_def)

lemma length_fold_cuts_step [simp]: "length (fold (cuts_step s) m cs) = length cs"
  by (induction m arbitrary: cs) auto

lemma cuts_step_mono:
  "i < length cs \<Longrightarrow> set (cs ! i) \<subseteq> set (cuts_step s item cs ! i)"
  by (auto simp: cuts_step_def Let_def nth_add_cuts)

lemma fold_cuts_step_mono:
  "i < length cs \<Longrightarrow> set (cs ! i) \<subseteq> set (fold (cuts_step s) m cs ! i)"
proof (induction m arbitrary: cs)
  case Nil
  then show ?case by simp
next
  case (Cons item m)
  have "set (cs ! i) \<subseteq> set (cuts_step s item cs ! i)"
    using Cons.prems by (rule cuts_step_mono)
  also have "\<dots> \<subseteq> set (fold (cuts_step s) m (cuts_step s item cs) ! i)"
    using Cons.prems by (intro Cons.IH) simp
  finally show ?case by simp
qed

lemma cuts_step_bounds:
  assumes "i < length cs" and "\<forall>v \<in> set (cs ! i). 0 \<le> v \<and> v \<le> s_width sz"
  shows "\<forall>v \<in> set (cuts_step (region_of_size sz) item cs ! i). 0 \<le> v \<and> v \<le> s_width sz"
  using assms
  by (auto simp: cuts_step_def Let_def nth_add_cuts contains_region_def region_of_size_def r_x2_def)

lemma fold_cuts_step_bounds:
  "i < length cs \<Longrightarrow> \<forall>v \<in> set (cs ! i). 0 \<le> v \<and> v \<le> s_width sz \<Longrightarrow>
   \<forall>v \<in> set (fold (cuts_step (region_of_size sz)) m cs ! i). 0 \<le> v \<and> v \<le> s_width sz"
proof (induction m arbitrary: cs)
  case Nil
  then show ?case by simp
next
  case (Cons item m)
  have "\<forall>v \<in> set (cuts_step (region_of_size sz) item cs ! i). 0 \<le> v \<and> v \<le> s_width sz"
    using cuts_step_bounds[OF Cons.prems] .
  from Cons.IH[OF _ this] Cons.prems(1) show ?case by simp
qed

lemma cuts_step_adds:
  assumes "i < length cs" and "length cs = nat (s_height sz)"
    and "region_bool (intersection (rr_region (snd item)) (rr_clip (snd item)))"
    and "contains_region (region_of_size sz) (intersection (rr_region (snd item)) (rr_clip (snd item)))"
    and "r_y (intersection (rr_region (snd item)) (rr_clip (snd item))) \<le> int i"
    and "int i < r_y2 (intersection (rr_region (snd item)) (rr_clip (snd item)))"
  shows "r_x (intersection (rr_region (snd item)) (rr_clip (snd item)))
           \<in> set (cuts_step (region_of_size sz) item cs ! i)
       \<and> r_x2 (intersection (rr_region (snd item)) (rr_clip (snd item)))
           \<in> set (cuts_step (region_of_size sz) item cs ! i)"
  using assms
  by (auto simp: cuts_step_def Let_def nth_add_cuts contains_region_def region_of_size_def
        r_y2_def py_index_def)

lemma fold_cuts_step_adds:
  assumes "item \<in> set m" and "i < length cs" and "length cs = nat (s_height sz)"
    and "region_bool (intersection (rr_region (snd item)) (rr_clip (snd item)))"
    and "contains_region (region_of_size sz) (intersection (rr_region (snd item)) (rr_clip (snd item)))"
    and "r_y (intersection (rr_region (snd item)) (rr_clip (snd item))) \<le> int i"
    and "int i < r_y2 (intersection (rr_region (snd item)) (rr_clip (snd item)))"
  shows "r_x (intersection (rr_region (snd item)) (rr_clip (snd item)))
           \<in> set (fold (cuts_step (region_of_size sz)) m cs ! i)
       \<and> r_x2 (intersection (rr_region (snd item)) (rr_clip (snd item)))
           \<in> set (fold (cuts_step (region_of_size sz)) m cs ! i)"
  using assms(1,2,3)
proof (induction m arbitrary: cs)
  case Nil
  then show ?case by simp
next
  case (Cons a m)
  show ?case
  proof (cases "item = a")
    case True
    from cuts_step_adds[OF Cons.prems(2,3) assms(4-7)] True
      fold_cuts_step_mono[of i "cuts_step (region_of_size sz) a cs" "region_of_size sz" m] Cons.prems(2)
    show ?thesis by auto
  next
    case False
    with Cons.prems(1) have "item \<in> set m" by simp
    from Cons.IH[OF this, of "cuts_step (region_of_size sz) a cs"] Cons.prems(2,3)
    show ?thesis by simp
  qed
qed

lemma compute_cuts_row:
  assumes "0 \<le> s_width (size_c c)" and "i < nat (s_height (size_c c))"
  shows "length (compute_cuts c) = nat (s_height (size_c c))"
    and "sorted_wrt (<) (compute_cuts c ! i)"
    and "hd (compute_cuts c ! i) = 0"
    and "last (compute_cuts c ! i) = s_width (size_c c)"
    and "item \<in> set (map_c c) \<Longrightarrow>
         region_bool (intersection (rr_region (snd item)) (rr_clip (snd item))) \<Longrightarrow>
         contains_region (region_of_size (size_c c))
           (intersection (rr_region (snd item)) (rr_clip (snd item))) \<Longrightarrow>
         r_y (intersection (rr_region (snd item)) (rr_clip (snd item))) \<le> int i \<Longrightarrow>
         int i < r_y2 (intersection (rr_region (snd item)) (rr_clip (snd item))) \<Longrightarrow>
         r_x (intersection (rr_region (snd item)) (rr_clip (snd item))) \<in> set (compute_cuts c ! i)
       \<and> r_x2 (intersection (rr_region (snd item)) (rr_clip (snd item))) \<in> set (compute_cuts c ! i)"
proof -
  let ?W = "s_width (size_c c)"
  let ?init = "replicate (nat (s_height (size_c c))) [0, ?W]"
  let ?filled = "fold (cuts_step (region_of_size (size_c c))) (map_c c) ?init"
  have cc: "compute_cuts c = map sorted_set ?filled"
    by (simp add: compute_cuts_def Let_def)
  show len: "length (compute_cuts c) = nat (s_height (size_c c))"
    by (simp add: cc)
  have i: "i < length ?init" using assms(2) by simp
  have row: "compute_cuts c ! i = sorted_set (?filled ! i)"
    using assms(2) by (simp add: cc)
  have init_i: "?init ! i = [0, ?W]" using assms(2) by simp
  have sub: "set [0, ?W] \<subseteq> set (?filled ! i)"
    using fold_cuts_step_mono[OF i, of "region_of_size (size_c c)" "map_c c"] init_i by simp
  have bnd: "\<forall>v \<in> set (?filled ! i). 0 \<le> v \<and> v \<le> ?W"
    using fold_cuts_step_bounds[OF i, of "size_c c" "map_c c"] init_i assms(1) by simp
  show "sorted_wrt (<) (compute_cuts c ! i)"
    by (simp add: row sorted_set_props)
  have srt: "sorted (compute_cuts c ! i)"
    using sorted_set_props(1)[of "?filled ! i"] by (simp add: row strict_sorted_iff)
  show "hd (compute_cuts c ! i) = 0"
    using sub bnd by (intro sorted_hd_least[OF srt]) (auto simp: row sorted_set_props)
  show "last (compute_cuts c ! i) = ?W"
    using sub bnd by (intro sorted_last_greatest[OF srt]) (auto simp: row sorted_set_props)
  show "item \<in> set (map_c c) \<Longrightarrow>
         region_bool (intersection (rr_region (snd item)) (rr_clip (snd item))) \<Longrightarrow>
         contains_region (region_of_size (size_c c))
           (intersection (rr_region (snd item)) (rr_clip (snd item))) \<Longrightarrow>
         r_y (intersection (rr_region (snd item)) (rr_clip (snd item))) \<le> int i \<Longrightarrow>
         int i < r_y2 (intersection (rr_region (snd item)) (rr_clip (snd item))) \<Longrightarrow>
         r_x (intersection (rr_region (snd item)) (rr_clip (snd item))) \<in> set (compute_cuts c ! i)
       \<and> r_x2 (intersection (rr_region (snd item)) (rr_clip (snd item))) \<in> set (compute_cuts c ! i)"
    using fold_cuts_step_adds[of item "map_c c" i ?init "size_c c"] i
    by (simp add: row sorted_set_props)
qed


lemma cuts_step_exact:
  assumes i: "i < length cs" and len: "length cs = nat (s_height sz)"
  shows "set (cuts_step (region_of_size sz) item cs ! i) =
           set (cs ! i) \<union>
           (if cut_source sz item i
            then {r_x (intersection (rr_region (snd item)) (rr_clip (snd item))),
                  r_x2 (intersection (rr_region (snd item)) (rr_clip (snd item)))}
            else {})"
proof -
  let ?R = "intersection (rr_region (snd item)) (rr_clip (snd item))"
  show ?thesis
  proof (cases "region_bool ?R \<and> contains_region (region_of_size sz) ?R")
    case False
    then show ?thesis by (auto simp: cuts_step_def Let_def cut_source_def)
  next
    case True
    then have y: "0 \<le> r_y ?R" "r_y ?R \<le> s_height sz" "0 \<le> r_y2 ?R" "r_y2 ?R \<le> s_height sz"
      by (simp_all add: contains_region_def region_of_size_def r_y2_def)
    have a: "py_index (length cs) (r_y ?R) = nat (r_y ?R)"
      using y len by (simp add: py_index_def)
    have b: "py_index (length cs) (r_y2 ?R) = nat (r_y2 ?R)"
      using y len by (simp add: py_index_def)
    have rng: "(nat (r_y ?R) \<le> i \<and> i < nat (r_y2 ?R)) \<longleftrightarrow> (r_y ?R \<le> int i \<and> int i < r_y2 ?R)"
      using y by linarith
    have step: "cuts_step (region_of_size sz) item cs = add_cuts cs ?R"
      using True by (simp add: cuts_step_def Let_def)
    show ?thesis
      unfolding step nth_add_cuts[OF i] a b using True rng
      by (auto simp: cut_source_def)
  qed
qed

lemma fold_cuts_step_exact:
  assumes "i < length cs" and "length cs = nat (s_height sz)"
  shows "set (fold (cuts_step (region_of_size sz)) m cs ! i) =
           set (cs ! i) \<union>
           {v. \<exists>item \<in> set m. cut_source sz item i \<and>
                 (v = r_x (intersection (rr_region (snd item)) (rr_clip (snd item))) \<or>
                  v = r_x2 (intersection (rr_region (snd item)) (rr_clip (snd item))))}"
  using assms
proof (induction m arbitrary: cs)
  case Nil
  then show ?case by simp
next
  case (Cons a m)
  have l1: "i < length (cuts_step (region_of_size sz) a cs)" using Cons.prems(1) by simp
  have l2: "length (cuts_step (region_of_size sz) a cs) = nat (s_height sz)"
    using Cons.prems(2) by simp
  note ih = Cons.IH[OF l1 l2]
  note st = cuts_step_exact[OF Cons.prems, of a]
  show ?case
    unfolding fold_simps(2) ih st by auto
qed

lemma compute_cuts_exact:
  assumes "i < nat (s_height (size_c c))"
  shows "set (compute_cuts c ! i) =
           {0, s_width (size_c c)} \<union>
           {v. \<exists>item \<in> set (map_c c). cut_source (size_c c) item i \<and>
                 (v = r_x (intersection (rr_region (snd item)) (rr_clip (snd item))) \<or>
                  v = r_x2 (intersection (rr_region (snd item)) (rr_clip (snd item))))}"
proof -
  let ?init = "replicate (nat (s_height (size_c c))) [0, s_width (size_c c)]"
  have i: "i < length ?init" using assms by simp
  have l: "length ?init = nat (s_height (size_c c))" by simp
  have row: "compute_cuts c ! i =
               sorted_set (fold (cuts_step (region_of_size (size_c c))) (map_c c) ?init ! i)"
    using assms by (simp add: compute_cuts_def Let_def)
  have ini: "set (?init ! i) = {0, s_width (size_c c)}" using assms by simp
  show ?thesis
    unfolding row sorted_set_props(2) fold_cuts_step_exact[OF i l] ini ..
qed

lemma length_compute_cuts: "length (compute_cuts c) = nat (s_height (size_c c))"
  by (simp add: compute_cuts_def Let_def)

lemma compute_cuts_filter:
  "compute_cuts (c\<lparr>map_c := filter (\<lambda>item. region_bool (clipped (snd item)) \<and>
                       contains_region (region_of_size (size_c c)) (clipped (snd item))) (map_c c)\<rparr>)
   = compute_cuts c"
proof (rule nth_equalityI)
  let ?c = "c\<lparr>map_c := filter (\<lambda>item. region_bool (clipped (snd item)) \<and>
                       contains_region (region_of_size (size_c c)) (clipped (snd item))) (map_c c)\<rparr>"
  show "length (compute_cuts ?c) = length (compute_cuts c)"
    by (simp add: length_compute_cuts)
  fix i assume "i < length (compute_cuts ?c)"
  then have i: "i < nat (s_height (size_c c))" by (simp add: length_compute_cuts)
  then have i': "i < nat (s_height (size_c ?c))" by simp
  have s: "set (compute_cuts ?c ! i) = set (compute_cuts c ! i)"
  proof -
    have g: "\<And>item. cut_source (size_c c) item i \<Longrightarrow>
               region_bool (clipped (snd item)) \<and>
               contains_region (region_of_size (size_c c)) (clipped (snd item))"
      by (simp add: cut_source_def clipped_def)
    have mm: "map_c ?c = filter (\<lambda>item. region_bool (clipped (snd item)) \<and>
                       contains_region (region_of_size (size_c c)) (clipped (snd item))) (map_c c)"
      by simp
    have "\<And>v. (\<exists>item \<in> set (map_c ?c). cut_source (size_c c) item i \<and>
                 (v = r_x (intersection (rr_region (snd item)) (rr_clip (snd item))) \<or>
                  v = r_x2 (intersection (rr_region (snd item)) (rr_clip (snd item))))) \<longleftrightarrow>
              (\<exists>item \<in> set (map_c c). cut_source (size_c c) item i \<and>
                 (v = r_x (intersection (rr_region (snd item)) (rr_clip (snd item))) \<or>
                  v = r_x2 (intersection (rr_region (snd item)) (rr_clip (snd item)))))"
      unfolding mm set_filter using g by blast
    then show ?thesis
      unfolding compute_cuts_exact[OF i] compute_cuts_exact[OF i'] by simp
  qed
  have srt: "sorted_wrt (<) (compute_cuts c ! i)" "sorted_wrt (<) (compute_cuts ?c ! i)"
    using i by (simp_all add: compute_cuts_def Let_def sorted_set_props)
  show "compute_cuts ?c ! i = compute_cuts c ! i"
    using s srt by (intro sorted_distinct_set_unique) (auto simp: strict_sorted_iff)
qed

lemma reflow_state:
  assumes "reflow limit env c parent sz = (Inr res, c')"
  shows "cuts_cache c' = None" "size_c c' = sz"
  using assms by (auto simp: reflow_def Let_def reset_def split: sum.splits)

lemma reflow_leaves:
  assumes "snd (reflow limit env c parent sz) = c'"
  shows "cuts_cache c' = None" "size_c c' = sz"
  using assms by (auto simp: reflow_def Let_def reset_def split: sum.splits prod.splits)

text \<open>
  C3, as the code has it. After a reflow onto a screen of non-negative width, whether it
  returns or raises, the cuts have one row per screen row; every row is strictly increasing,
  begins with 0 and ends with the screen width, and contains the left and right column of
  every widget of the map whose clipped region is non-empty, lies within the screen and spans
  that row. The row holds nothing else:
  its columns are exactly 0, the screen width and the left and right columns of those widgets.
  A widget whose clipped region is empty or not within the screen contributes no cuts: the cuts
  are those of the map without such widgets.
\<close>

theorem cuts_after_reflow:
  assumes "snd (reflow limit env c parent sz) = c'"
    and "0 \<le> s_width sz" and "i < nat (s_height sz)"
  shows "length (cuts c') = nat (s_height sz)
       \<and> sorted_wrt (<) (cuts c' ! i) \<and> hd (cuts c' ! i) = 0 \<and> last (cuts c' ! i) = s_width sz
       \<and> (\<forall>w rr. (w, rr) \<in> set (map_c c')
            \<and> region_bool (intersection (rr_region rr) (rr_clip rr))
            \<and> contains_region (region_of_size sz) (intersection (rr_region rr) (rr_clip rr))
            \<and> r_y (intersection (rr_region rr) (rr_clip rr)) \<le> int i
            \<and> int i < r_y2 (intersection (rr_region rr) (rr_clip rr))
          \<longrightarrow> r_x (intersection (rr_region rr) (rr_clip rr)) \<in> set (cuts c' ! i)
            \<and> r_x2 (intersection (rr_region rr) (rr_clip rr)) \<in> set (cuts c' ! i))
       \<and> set (cuts c' ! i) =
           {0, s_width sz} \<union>
           {v. \<exists>item \<in> set (map_c c'). cut_source sz item i \<and>
                 (v = r_x (clipped (snd item)) \<or> v = r_x2 (clipped (snd item)))}
       \<and> cuts (c'\<lparr>map_c := filter (\<lambda>item. region_bool (clipped (snd item)) \<and>
                     contains_region (region_of_size sz) (clipped (snd item))) (map_c c')\<rparr>)
           = cuts c'"
proof -
  note st = reflow_leaves[OF assms(1)]
  have eq: "cuts c' = compute_cuts c'" by (simp add: cuts_def st)
  have w: "0 \<le> s_width (size_c c')" and i: "i < nat (s_height (size_c c'))"
    using assms(2,3) st by simp_all
  note row = compute_cuts_row[OF w i]
  have "\<forall>w rr. (w, rr) \<in> set (map_c c')
            \<and> region_bool (intersection (rr_region rr) (rr_clip rr))
            \<and> contains_region (region_of_size sz) (intersection (rr_region rr) (rr_clip rr))
            \<and> r_y (intersection (rr_region rr) (rr_clip rr)) \<le> int i
            \<and> int i < r_y2 (intersection (rr_region rr) (rr_clip rr))
          \<longrightarrow> r_x (intersection (rr_region rr) (rr_clip rr)) \<in> set (cuts c' ! i)
            \<and> r_x2 (intersection (rr_region rr) (rr_clip rr)) \<in> set (cuts c' ! i)"
  proof (intro allI impI)
    fix w rr
    assume "(w, rr) \<in> set (map_c c')
            \<and> region_bool (intersection (rr_region rr) (rr_clip rr))
            \<and> contains_region (region_of_size sz) (intersection (rr_region rr) (rr_clip rr))
            \<and> r_y (intersection (rr_region rr) (rr_clip rr)) \<le> int i
            \<and> int i < r_y2 (intersection (rr_region rr) (rr_clip rr))"
    with row(5)[of "(w, rr)"] st(2)
    show "r_x (intersection (rr_region rr) (rr_clip rr)) \<in> set (cuts c' ! i)
            \<and> r_x2 (intersection (rr_region rr) (rr_clip rr)) \<in> set (cuts c' ! i)"
      by (simp add: eq)
  qed
  moreover have "set (cuts c' ! i) =
           {0, s_width sz} \<union>
           {v. \<exists>item \<in> set (map_c c'). cut_source sz item i \<and>
                 (v = r_x (clipped (snd item)) \<or> v = r_x2 (clipped (snd item)))}"
    unfolding eq compute_cuts_exact[OF i] clipped_def st(2) ..
  moreover have "cuts (c'\<lparr>map_c := filter (\<lambda>item. region_bool (clipped (snd item)) \<and>
                     contains_region (region_of_size sz) (clipped (snd item))) (map_c c')\<rparr>)
           = cuts c'"
    using compute_cuts_filter[of c'] st by (simp add: cuts_def)
  ultimately show ?thesis using row(1-4) st(2) by (simp add: eq)
qed

lemma reflow_wide:
  "reflow 10 env_wide init 0 (Size 2 1) =
     (Inr \<lparr>hidden = {}, shown = {0}, resized = {}\<rparr>, c_wide)"
  by code_simp

theorem cuts_after_reflow_witness:
  "reflow 10 env_occ init 0 (Size 4 1) =
     (Inr \<lparr>hidden = {}, shown = {0, 1, 2}, resized = {}\<rparr>, c_occ)
   \<and> cuts c_occ = [[0, 1, 3, 4]]
   \<and> (2, RenderRegion (Region 1 0 2 1) [1] (Region 0 0 4 1) (Size 2 1)) \<in> set (map_c c_occ)
   \<and> intersection (Region 1 0 2 1) (Region 0 0 4 1) = Region 1 0 2 1
   \<and> sorted_wrt (<) (cuts c_occ ! 0) \<and> hd (cuts c_occ ! 0) = 0 \<and> last (cuts c_occ ! 0) = 4
   \<and> 1 \<in> set (cuts c_occ ! 0) \<and> 3 \<in> set (cuts c_occ ! 0)"
proof -
  have a: "(0::int) \<le> s_width (Size 4 1)" and b: "0 < nat (s_height (Size 4 1))" by simp_all
  have c: "cuts c_occ = [[0, 1, 3, 4]]" by code_simp
  have d: "(2, RenderRegion (Region 1 0 2 1) [1] (Region 0 0 4 1) (Size 2 1)) \<in> set (map_c c_occ)"
    by (simp add: c_occ_def)
  have e: "intersection (Region 1 0 2 1) (Region 0 0 4 1) = Region 1 0 2 1" by code_simp
  have r: "snd (reflow 10 env_occ init 0 (Size 4 1)) = c_occ" using reflow_occ by simp
  note t = cuts_after_reflow[OF r a b]
  have f: "sorted_wrt (<) (cuts c_occ ! 0) \<and> hd (cuts c_occ ! 0) = 0 \<and> last (cuts c_occ ! 0) = 4"
    using t by simp
  have g: "1 \<in> set (cuts c_occ ! 0) \<and> 3 \<in> set (cuts c_occ ! 0)"
    using t[THEN conjunct2, THEN conjunct2, THEN conjunct2, THEN conjunct2, THEN conjunct1,
            rule_format, of 2 "RenderRegion (Region 1 0 2 1) [1] (Region 0 0 4 1) (Size 2 1)"] d e
    by (simp add: region_bool_def contains_region_def region_of_size_def r_x2_def r_y2_def)
  from reflow_occ c d e f g show ?thesis by simp
qed

text \<open>
  C3, as stated, fails when the root is larger than the screen: the clipped region of the
  root covers row 0 up to column 4, it is not within the screen of width 2, and the row of cuts
  \<open>[0, 2]\<close> does not contain its right column.
\<close>

theorem cuts_miss_offscreen_widget:
  "reflow 10 env_wide init 0 (Size 2 1) =
     (Inr \<lparr>hidden = {}, shown = {0}, resized = {}\<rparr>, c_wide)
   \<and> map_c c_wide = [(0, RenderRegion (Region 0 0 4 1) [] (Region 0 0 4 1) (Size 4 1))]
   \<and> intersection (Region 0 0 4 1) (Region 0 0 4 1) = Region 0 0 4 1
   \<and> contains (Region 0 0 4 1) 0 0
   \<and> cuts c_wide = [[0, 2]]
   \<and> r_x2 (Region 0 0 4 1) \<notin> set (cuts c_wide ! 0)"
  by code_simp

section \<open>Partial update\<close>

lemma intersection_empty: "\<not> region_bool r \<Longrightarrow> \<not> region_bool (intersection r clip)"
  by (auto simp: region_bool_def intersection_def Let_def r_x2_def r_y2_def)

lemma length_py_set [simp]: "length (py_set xs i v) = length xs"
  by (simp add: py_set_def)

lemma fill_rows_length:
  "fill_rows cs rr chops rows = Inr chops' \<Longrightarrow> length chops' = length chops"
  by (induction cs rr chops rows rule: fill_rows.induct)
     (auto simp: Let_def split: sum.splits)

lemma fill_renders_length:
  "fill_renders env cs chops ws = Inr chops' \<Longrightarrow> length chops' = length chops"
  by (induction env cs chops ws rule: fill_renders.induct)
     (auto simp: Let_def dest: fill_rows_length split: sum.splits option.splits if_splits)

lemma py_slice_all: "length xs = nat h \<Longrightarrow> py_slice xs 0 h = xs"
  by (auto simp: py_slice_def py_index_def Let_def)

lemma py_slice_map: "py_slice (map f xs) a b = map f (py_slice xs a b)"
  by (simp add: py_slice_def Let_def take_map drop_map)

section \<open>Dividing lines\<close>

lemma cells_Nil [simp]: "cells [] = []" by (simp add: cells_def)
lemma cells_Cons: "cells (s # ln) = map (\<lambda>ch. (ch, seg_style s)) (seg_text s) @ cells ln"
  by (simp add: cells_def)
lemma cells_append [simp]: "cells (a @ b) = cells a @ cells b" by (simp add: cells_def)
lemma cells_single: "cells [s] = map (\<lambda>ch. (ch, seg_style s)) (seg_text s)"
  by (simp add: cells_def)
lemma length_cells_single: "int (length (cells [s])) = cell_length s"
  by (simp add: cells_single cell_length_def)

lemma split_cells_cells:
  assumes "0 \<le> n" "n < cell_length s"
  shows "cells [fst (split_cells s n)] = take (nat n) (cells [s])"
    and "cells [snd (split_cells s n)] = drop (nat n) (cells [s])"
  using assms
  by (auto simp: split_cells_def cell_length_def cells_single py_index_def take_map drop_map
        min_def)

declare divide_loop.simps(2) [simp del]

lemma divide_loop_step:
  "seg_text s \<noteq> [] \<Longrightarrow> divide_loop (s # segs) pos ct rest acc =
     (if pos + cell_length s < ct then divide_loop segs (pos + cell_length s) ct rest (acc @ [s])
      else if pos + cell_length s = ct then
          (acc @ [s]) # (case rest of [] \<Rightarrow> [] | c # cs \<Rightarrow> divide_loop segs (pos + cell_length s) c cs [])
        else
          (acc @ [fst (split_cells s (ct - pos))]) #
            (case rest of [] \<Rightarrow> []
             | c # cs \<Rightarrow> divide_loop (snd (split_cells s (ct - pos)) # segs) ct c cs []))"
  "seg_text s = [] \<Longrightarrow> divide_loop (s # segs) pos ct rest acc = divide_loop segs pos ct rest acc"
  by (subst divide_loop.simps(2), simp add: Let_def)+

lemma divide_loop_cells:
  assumes "sorted_wrt (<) (ct # rest)" and "pos < ct"
    and "last (ct # rest) \<le> pos + int (length (cells segs))"
  shows "map cells (divide_loop segs pos ct rest acc) =
           chop (cells acc @ cells segs) (pos - int (length (cells acc))) (ct # rest)"
  using assms
proof (induction segs pos ct rest acc rule: divide_loop.induct)
  case (1 pos ct rest acc)
  from 1(1) have "ct \<le> last (ct # rest)" by (induction rest arbitrary: ct) auto
  with 1 show ?case by simp
next
  case (2 s segs pos ct rest acc)
  show ?case
  proof (cases "seg_text s = []")
    case True
    with 2 show ?thesis by (simp add: cells_Cons divide_loop_step(2))
  next
    case False
    note ne = False
    let ?e = "pos + cell_length s"
    have cl: "int (length (cells [s])) = cell_length s" by (rule length_cells_single)
    have cs: "cells (s # segs) = cells [s] @ cells segs" by (simp add: cells_Cons cells_single)
    consider (lt) "?e < ct" | (eq) "?e = ct" | (gt) "?e > ct" by linarith
    then show ?thesis
    proof cases
      case lt
      have "map cells (divide_loop segs ?e ct rest (acc @ [s])) =
           chop (cells (acc @ [s]) @ cells segs) (?e - int (length (cells (acc @ [s])))) (ct # rest)"
        using 2(2)[OF ne refl lt] 2(5,7) lt cl cs by simp
      with ne lt cl cs show ?thesis by (simp add: divide_loop_step(1))
    next
      case eq
      have ar: "nat (ct - (pos - int (length (cells acc)))) = length (cells acc) + length (cells [s])"
        using eq cl by linarith
      have tk: "take (nat (ct - (pos - int (length (cells acc))))) (cells acc @ cells [s] @ cells segs)
                 = cells acc @ cells [s]"
        unfolding ar by simp
      have dr: "drop (nat (ct - (pos - int (length (cells acc))))) (cells acc @ cells [s] @ cells segs)
                 = cells segs"
        unfolding ar by simp
      show ?thesis
      proof (cases rest)
        case Nil
        with ne eq tk show ?thesis by (simp add: divide_loop_step(1) cs)
      next
        case (Cons c cs')
        have "map cells (divide_loop segs ?e c cs' []) = chop (cells [] @ cells segs) (?e - int (length (cells []))) (c # cs')"
          using 2(3)[OF ne refl _ eq Cons] 2(5,7) eq Cons cl cs by simp
        with ne eq tk dr Cons show ?thesis by (simp add: divide_loop_step(1) cs)
      qed
    next
      case gt
      let ?n = "ct - pos"
      have n: "0 \<le> ?n" "?n < cell_length s" using gt 2(6) by simp_all
      note sc = split_cells_cells[OF n]
      have ar: "nat (ct - (pos - int (length (cells acc)))) = length (cells acc) + nat ?n"
        using n by linarith
      have ln: "nat ?n \<le> length (cells [s])" using n cl by linarith
      have tk: "take (nat (ct - (pos - int (length (cells acc))))) (cells acc @ cells [s] @ cells segs)
                 = cells acc @ take (nat ?n) (cells [s])"
        unfolding ar using ln by simp
      have dr: "drop (nat (ct - (pos - int (length (cells acc))))) (cells acc @ cells [s] @ cells segs)
                 = drop (nat ?n) (cells [s]) @ cells segs"
        unfolding ar using ln by simp
      show ?thesis
      proof (cases rest)
        case Nil
        with ne gt tk sc show ?thesis by (simp add: divide_loop_step(1) cs)
      next
        case (Cons c cs')
        have c2: "cells (snd (split_cells s ?n) # segs) = drop (nat ?n) (cells [s]) @ cells segs"
          using sc(2) by (simp add: cells_def)
        have len: "int (length (cells (snd (split_cells s ?n) # segs))) = ?e - ct + int (length (cells segs))"
          unfolding c2 using cl n by simp
        have "map cells (divide_loop (snd (split_cells s ?n) # segs) ct c cs' []) =
              chop (cells [] @ cells (snd (split_cells s ?n) # segs)) (ct - int (length (cells []))) (c # cs')"
          using 2(4)[OF ne refl _ _ Cons] 2(5,7) gt Cons len cl cs by simp
        with ne gt tk dr sc(1) Cons show ?thesis
          by (simp add: divide_loop_step(1) cs c2)
      qed
    qed
  qed
qed

lemma length_chop [simp]: "length (chop xs p ks) = length ks"
  by (induction ks arbitrary: xs p) auto

lemma chop_nth:
  "sorted_wrt (<) (p # ks) \<Longrightarrow> t < length ks \<Longrightarrow>
     chop xs p ks ! t = take (nat (ks ! t - (p # ks) ! t)) (drop (nat ((p # ks) ! t - p)) xs)"
proof (induction ks arbitrary: xs p t)
  case Nil
  then show ?case by simp
next
  case (Cons k ks)
  show ?case
  proof (cases t)
    case 0
    then show ?thesis by simp
  next
    case (Suc t')
    from Cons.prems have s: "sorted_wrt (<) (k # ks)" and t': "t' < length ks" and pk: "p < k"
      using Suc by auto
    have kk: "k \<le> (k # ks) ! t'"
      using s t' by (cases t') (auto simp: less_imp_le)
    have "nat ((k # ks) ! t' - k) + nat (k - p) = nat ((k # ks) ! t' - p)"
      using kk pk by linarith
    with Cons.IH[OF s t', of "drop (nat (k - p)) xs"] Suc show ?thesis
      by (simp add: add.commute)
  qed
qed

lemma segment_divide_cells:
  assumes "sorted_wrt (<) ks" and "ks \<noteq> []" and "0 \<le> hd ks"
    and "last ks \<le> int (length (cells segs))"
  shows "map cells (segment_divide segs ks) = chop (cells segs) 0 ks"
proof (cases ks)
  case Nil
  with assms show ?thesis by simp
next
  case (Cons k ks')
  show ?thesis
  proof (cases "k = 0")
    case False
    with assms Cons divide_loop_cells[of k ks' 0 segs "[]"] show ?thesis by simp
  next
    case True
    show ?thesis
    proof (cases ks')
      case Nil
      with True Cons show ?thesis by simp
    next
      case (Cons k' ks'')
      with assms \<open>ks = k # ks'\<close> True have "0 < k'" by simp
      with assms \<open>ks = k # ks'\<close> True Cons divide_loop_cells[of k' ks'' 0 segs "[]"]
      show ?thesis by simp
    qed
  qed
qed

lemma divide_loop_nonempty: "divide_loop segs pos ct rest acc \<noteq> []"
proof (induction segs pos ct rest acc rule: divide_loop.induct)
  case (1 pos ct rest acc)
  then show ?case by simp
next
  case (2 s segs pos ct rest acc)
  show ?case
  proof (cases "seg_text s = []")
    case True
    with 2(1) show ?thesis by (simp add: divide_loop_step(2))
  next
    case False
    show ?thesis
    proof (cases "pos + cell_length s < ct")
      case True
      with False 2(2) show ?thesis by (simp add: divide_loop_step(1))
    next
      case n: False
      with False show ?thesis by (simp add: divide_loop_step(1))
    qed
  qed
qed

lemma divide_two_nonempty: "segment_divide ln [a, b] \<noteq> []"
  by (simp add: divide_loop_nonempty)

lemma length_divide:
  assumes "sorted_wrt (<) ks" and "ks \<noteq> []" and "0 \<le> hd ks"
    and "last ks \<le> int (length (cells segs))"
  shows "length (segment_divide segs ks) = length ks"
  using arg_cong[OF segment_divide_cells[OF assms], of length] by simp

section \<open>Regions and the lines of a widget\<close>

lemma clamp_cases:
  "lo \<le> hi \<Longrightarrow> clamp lo hi v = max lo (min hi v)"
  by (simp add: clamp_def max_def min_def)

lemma inter_sel:
  "r_x (intersection a b) = clamp (r_x b) (r_x2 b) (r_x a)"
  "r_y (intersection a b) = clamp (r_y b) (r_y2 b) (r_y a)"
  "r_x2 (intersection a b) = clamp (r_x b) (r_x2 b) (r_x2 a)"
  "r_y2 (intersection a b) = clamp (r_y b) (r_y2 b) (r_y2 a)"
  "r_width (intersection a b) = clamp (r_x b) (r_x2 b) (r_x2 a) - clamp (r_x b) (r_x2 b) (r_x a)"
  "r_height (intersection a b) = clamp (r_y b) (r_y2 b) (r_y2 a) - clamp (r_y b) (r_y2 b) (r_y a)"
  by (simp_all add: intersection_def Let_def r_x2_def r_y2_def)

lemma inter_geom:
  assumes "0 < r_width region" "0 < r_height region" "0 \<le> r_width clip" "0 \<le> r_height clip"
    and "region_bool (intersection region clip)"
  shows "r_x (intersection region clip) = max (r_x region) (r_x clip)"
    and "r_x2 (intersection region clip) = min (r_x2 region) (r_x2 clip)"
    and "r_y (intersection region clip) = max (r_y region) (r_y clip)"
    and "r_y2 (intersection region clip) = min (r_y2 region) (r_y2 clip)"
    and "0 < r_width (intersection region clip)"
    and "0 < r_height (intersection region clip)"
proof -
  have cx: "r_x clip \<le> r_x2 clip" and cy: "r_y clip \<le> r_y2 clip"
    using assms(3,4) by (simp_all add: r_x2_def r_y2_def)
  have rx: "r_x region < r_x2 region" and ry: "r_y region < r_y2 region"
    using assms(1,2) by (simp_all add: r_x2_def r_y2_def)
  from assms(5) have w: "max (r_x clip) (min (r_x2 clip) (r_x2 region)) -
                         max (r_x clip) (min (r_x2 clip) (r_x region)) \<noteq> 0"
    and h: "max (r_y clip) (min (r_y2 clip) (r_y2 region)) -
                         max (r_y clip) (min (r_y2 clip) (r_y region)) \<noteq> 0"
    by (simp_all add: region_bool_def inter_sel clamp_cases[OF cx] clamp_cases[OF cy])
  show "r_x (intersection region clip) = max (r_x region) (r_x clip)"
    using w cx rx by (auto simp add: inter_sel clamp_cases[OF cx])
  show "r_x2 (intersection region clip) = min (r_x2 region) (r_x2 clip)"
    using w cx rx by (auto simp add: inter_sel clamp_cases[OF cx])
  show "r_y (intersection region clip) = max (r_y region) (r_y clip)"
    using h cy ry by (auto simp add: inter_sel clamp_cases[OF cy])
  show "r_y2 (intersection region clip) = min (r_y2 region) (r_y2 clip)"
    using h cy ry by (auto simp add: inter_sel clamp_cases[OF cy])
  show "0 < r_width (intersection region clip)"
    using w cx rx by (auto simp add: inter_sel clamp_cases[OF cx])
  show "0 < r_height (intersection region clip)"
    using h cy ry by (auto simp add: inter_sel clamp_cases[OF cy])
qed

lemma inter_contained:
  assumes "0 < r_width region" "0 < r_height region" "contains_region clip region"
  shows "intersection region clip = region"
proof -
  have "r_x (intersection region clip) = r_x region" "r_y (intersection region clip) = r_y region"
    "r_width (intersection region clip) = r_width region"
    "r_height (intersection region clip) = r_height region"
    using assms by (simp_all add: inter_sel clamp_def contains_region_def r_x2_def r_y2_def)
  then show ?thesis by (simp add: region.expand)
qed

lemma collect_all:
  assumes "\<forall>x \<in> set xs. \<exists>v. f x = Inr v"
  shows "\<exists>ys. collect (map f xs) = Inr ys \<and> length ys = length xs \<and>
              (\<forall>j < length xs. f (xs ! j) = Inr (ys ! j))"
  using assms
proof (induction xs)
  case Nil
  then show ?case by simp
next
  case (Cons x xs)
  from Cons.prems obtain v where v: "f x = Inr v" by auto
  from Cons.prems have "\<forall>x \<in> set xs. \<exists>v. f x = Inr v" by simp
  from Cons.IH[OF this] obtain ys where ys: "collect (map f xs) = Inr ys"
    "length ys = length xs" "\<forall>j < length xs. f (xs ! j) = Inr (ys ! j)"
    by blast
  have n: "\<forall>j < length (x # xs). f ((x # xs) ! j) = Inr ((v # ys) ! j)"
  proof (intro allI impI)
    fix j assume "j < length (x # xs)"
    then show "f ((x # xs) ! j) = Inr ((v # ys) ! j)"
      using v ys(3) by (cases j) simp_all
  qed
  have c: "collect (map f (x # xs)) = Inr (v # ys)" using v ys(1) by simp
  have l: "length (v # ys) = length (x # xs)" using ys(2) by simp
  from c l n show ?case by blast
qed

lemma middle_slice_divide:
  assumes "0 \<le> dx" "0 < w" "dx + w \<le> int (length (cells ln))"
  shows "\<exists>v. middle_slice (segment_divide ln [dx, dx + w]) = Inr v \<and>
             cells v = take (nat w) (drop (nat dx) (cells ln))"
proof -
  define d where "d = segment_divide ln [dx, dx + w]"
  have "map cells d = chop (cells ln) 0 [dx, dx + w]"
    unfolding d_def using assms by (intro segment_divide_cells) auto
  then have m: "map cells d =
        [take (nat dx) (cells ln), take (nat w) (drop (nat dx) (cells ln))]"
    by simp
  then obtain a b where ab: "d = [a, b]" by auto
  with m have "cells b = take (nat w) (drop (nat dx) (cells ln))" by simp
  with ab show ?thesis unfolding d_def[symmetric] by (simp add: middle_slice_def)
qed

lemma get_render_spec:
  assumes "0 < r_width region" "0 < r_height region" "0 \<le> r_width clip" "0 \<le> r_height clip"
    and "length (get_lines (env w)) = nat (r_height region)"
    and "\<forall>ln \<in> set (get_lines (env w)). int (length (cells ln)) = r_width region"
  shows "\<not> region_bool (intersection region clip) \<Longrightarrow> get_render env w region clip = Inr None"
    and "region_bool (intersection region clip) \<Longrightarrow>
         \<exists>lines. get_render env w region clip = Inr (Some (region, clip, lines)) \<and>
           length lines = nat (r_height (intersection region clip)) \<and>
           (\<forall>j < length lines. cells (lines ! j) =
              take (nat (r_width (intersection region clip)))
                (drop (nat (r_x (intersection region clip) - r_x region))
                   (cells (get_lines (env w) !
                      (j + nat (r_y (intersection region clip) - r_y region))))))"
proof -
  let ?R = "intersection region clip"
  {
    assume e: "\<not> region_bool ?R"
    have "\<not> contains_region clip region"
    proof
      assume "contains_region clip region"
      from inter_contained[OF assms(1,2) this] assms(1,2) e show False
        by (simp add: region_bool_def)
    qed
    with e show "get_render env w region clip = Inr None"
      by (simp add: get_render_def overlaps_def)
  }
  {
    assume ne: "region_bool ?R"
    note g = inter_geom[OF assms(1-4) ne]
    show "\<exists>lines. get_render env w region clip = Inr (Some (region, clip, lines)) \<and>
           length lines = nat (r_height ?R) \<and>
           (\<forall>j < length lines. cells (lines ! j) =
              take (nat (r_width ?R)) (drop (nat (r_x ?R - r_x region))
                   (cells (get_lines (env w) ! (j + nat (r_y ?R - r_y region))))))"
    proof (cases "contains_region clip region")
      case True
      from inter_contained[OF assms(1,2) True] have R: "?R = region" .
      have "\<forall>j < length (get_lines (env w)). cells (get_lines (env w) ! j) =
              take (nat (r_width region)) (drop (nat (r_x region - r_x region))
                   (cells (get_lines (env w) ! (j + nat (r_y region - r_y region)))))"
      proof (intro allI impI)
        fix j assume "j < length (get_lines (env w))"
        then have "get_lines (env w) ! j \<in> set (get_lines (env w))" by simp
        with assms(6) have "int (length (cells (get_lines (env w) ! j))) = r_width region" by blast
        then have "length (cells (get_lines (env w) ! j)) = nat (r_width region)" by linarith
        then show "cells (get_lines (env w) ! j) =
              take (nat (r_width region)) (drop (nat (r_x region - r_x region))
                   (cells (get_lines (env w) ! (j + nat (r_y region - r_y region)))))"
          by simp
      qed
      with True R assms(5) show ?thesis by (simp add: get_render_def)
    next
      case False
      let ?dx = "r_x ?R - r_x region" and ?dy = "r_y ?R - r_y region"
      let ?full = "get_lines (env w)"
      let ?sl = "py_slice ?full ?dy (?dy + r_height ?R)"
      have dy: "0 \<le> ?dy" "?dy + r_height ?R \<le> r_height region"
        using g by (auto simp: r_y2_def)
      have dx: "0 \<le> ?dx" "?dx + r_width ?R \<le> r_width region"
        using g by (auto simp: r_x2_def)
      have pa: "py_index (length ?full) ?dy = nat ?dy"
        using dy assms(5) g(6) by (simp add: py_index_def)
      have pb: "py_index (length ?full) (?dy + r_height ?R) = nat ?dy + nat (r_height ?R)"
        using dy assms(5) g(6) by (simp add: py_index_def nat_add_distrib)
      have sl: "?sl = take (nat (r_height ?R)) (drop (nat ?dy) ?full)"
        by (simp add: py_slice_def Let_def pa pb)
      have len_sl: "length ?sl = nat (r_height ?R)"
        using dy assms(5) g(6) unfolding sl by auto
      have nth_sl: "\<And>j. j < nat (r_height ?R) \<Longrightarrow> ?sl ! j = ?full ! (j + nat ?dy)"
        using dy assms(5) unfolding sl by (simp add: add.commute)
      have each: "\<forall>ln \<in> set ?sl. \<exists>v. middle_slice (segment_divide ln [?dx, ?dx + r_width ?R]) = Inr v"
      proof
        fix ln assume "ln \<in> set ?sl"
        then have "ln \<in> set (drop (nat ?dy) ?full)" unfolding sl by (rule in_set_takeD)
        then have "ln \<in> set ?full" by (rule in_set_dropD)
        with assms(6) have "int (length (cells ln)) = r_width region" by simp
        with middle_slice_divide[OF dx(1) g(5), of ln] dx(2)
        show "\<exists>v. middle_slice (segment_divide ln [?dx, ?dx + r_width ?R]) = Inr v" by auto
      qed
      from collect_all[OF each] obtain ys where
        ys: "collect (map (\<lambda>ln. middle_slice (segment_divide ln [?dx, ?dx + r_width ?R])) ?sl) = Inr ys"
            "length ys = length ?sl"
            "\<forall>j < length ?sl. middle_slice (segment_divide (?sl ! j) [?dx, ?dx + r_width ?R]) = Inr (ys ! j)"
        by blast
      have "\<forall>j < length ys. cells (ys ! j) =
              take (nat (r_width ?R)) (drop (nat ?dx) (cells (?full ! (j + nat ?dy))))"
      proof (intro allI impI)
        fix j assume j: "j < length ys"
        with ys(2) len_sl have j': "j < nat (r_height ?R)" by simp
        have "?sl ! j \<in> set ?sl" using j ys(2) by simp
        then have "?sl ! j \<in> set (drop (nat ?dy) ?full)" unfolding sl by (rule in_set_takeD)
        then have "?sl ! j \<in> set ?full" by (rule in_set_dropD)
        with assms(6) have "int (length (cells (?sl ! j))) = r_width region" by simp
        with middle_slice_divide[OF dx(1) g(5), of "?sl ! j"] dx(2) ys(3) j ys(2)
        have "cells (ys ! j) = take (nat (r_width ?R)) (drop (nat ?dx) (cells (?sl ! j)))"
          by auto
        with nth_sl[OF j'] show "cells (ys ! j) =
              take (nat (r_width ?R)) (drop (nat ?dx) (cells (?full ! (j + nat ?dy))))"
          by simp
      qed
      with ys(1,2) len_sl False ne show ?thesis
        by (simp add: get_render_def overlaps_def Let_def)
    qed
  }
qed

section \<open>Filling the buckets of a row\<close>

lemma keys_dict_set_present: "k \<in> fst ` set d \<Longrightarrow> map fst (dict_set d k v) = map fst d"
  by (induction d k v rule: dict_set.induct) auto

lemma fill_cuts_spec:
  assumes "fst ` set kvs \<subseteq> fst ` set cl"
  shows "\<exists>cl'. fill_cuts cl kvs = Inr cl' \<and> map fst cl' = map fst cl \<and>
           (\<forall>k. map_of cl' k =
              (if map_of cl k = Some None
               then (case map_of kvs k of Some s \<Rightarrow> Some (Some s) | None \<Rightarrow> Some None)
               else map_of cl k))"
  using assms
proof (induction kvs arbitrary: cl)
  case Nil
  then show ?case by simp
next
  case (Cons kv kvs)
  obtain k0 s0 where kv: "kv = (k0, s0)" by (cases kv)
  from Cons.prems kv have k0: "k0 \<in> fst ` set cl" and rest: "fst ` set kvs \<subseteq> fst ` set cl"
    by auto
  from k0 obtain v where v: "map_of cl k0 = Some v"
    by (metis domD dom_map_of_conv_image_fst)
  show ?case
  proof (cases v)
    case None
    let ?cl1 = "dict_set cl k0 (Some s0)"
    have keys1: "map fst ?cl1 = map fst cl" using k0 by (rule keys_dict_set_present)
    then have "fst ` set ?cl1 = fst ` set cl" by (metis list.set_map)
    with rest have "fst ` set kvs \<subseteq> fst ` set ?cl1" by simp
    from Cons.IH[OF this] obtain cl' where cl':
      "fill_cuts ?cl1 kvs = Inr cl'" "map fst cl' = map fst ?cl1"
      "\<forall>k. map_of cl' k =
              (if map_of ?cl1 k = Some None
               then (case map_of kvs k of Some s \<Rightarrow> Some (Some s) | None \<Rightarrow> Some None)
               else map_of ?cl1 k)" by blast
    have "fill_cuts cl (kv # kvs) = Inr cl'" using kv v None cl'(1) by simp
    moreover have "map fst cl' = map fst cl" using cl'(2) keys1 by simp
    moreover have "\<forall>k. map_of cl' k =
              (if map_of cl k = Some None
               then (case map_of (kv # kvs) k of Some s \<Rightarrow> Some (Some s) | None \<Rightarrow> Some None)
               else map_of cl k)"
      using cl'(3) kv v None by (auto simp: map_of_dict_set)
    ultimately show ?thesis by blast
  next
    case (Some p)
    from Cons.IH[OF rest] obtain cl' where cl':
      "fill_cuts cl kvs = Inr cl'" "map fst cl' = map fst cl"
      "\<forall>k. map_of cl' k =
              (if map_of cl k = Some None
               then (case map_of kvs k of Some s \<Rightarrow> Some (Some s) | None \<Rightarrow> Some None)
               else map_of cl k)" by blast
    have "fill_cuts cl (kv # kvs) = Inr cl'" using kv v Some cl'(1) by simp
    moreover have "\<forall>k. map_of cl' k =
              (if map_of cl k = Some None
               then (case map_of (kv # kvs) k of Some s \<Rightarrow> Some (Some s) | None \<Rightarrow> Some None)
               else map_of cl k)"
      using cl'(3) kv v Some by auto
    ultimately show ?thesis using cl'(2) by blast
  qed
qed

lemma strict_sorted_nth_less:
  "sorted_wrt (<) (F::int list) \<Longrightarrow> t < u \<Longrightarrow> u < length F \<Longrightarrow> F ! t < F ! u"
  by (simp add: sorted_wrt_nth_less)

lemma strict_sorted_nth_less_iff:
  assumes "sorted_wrt (<) (F::int list)" "t < length F" "u < length F" "F ! t < F ! u"
  shows "t < u"
proof (rule ccontr)
  assume "\<not> t < u"
  then have "u = t \<or> u < t" by auto
  then show False
  proof
    assume "u = t" with assms(4) show False by simp
  next
    assume "u < t"
    from strict_sorted_nth_less[OF assms(1) this assms(2)] assms(4) show False by simp
  qed
qed

lemma next_cut_interval:
  assumes K: "sorted_wrt (<) K" and F: "F = filter (\<lambda>c. x2 \<ge> c \<and> c \<ge> x) K"
    and t: "Suc t < length F"
  shows "next_cut K (F ! t) = F ! Suc t"
proof -
  have sF: "sorted_wrt (<) F" unfolding F using K by (rule sorted_wrt_filter)
  have lt: "F ! t < F ! Suc t" using strict_sorted_nth_less[OF sF _ t] by simp
  have memF: "F ! Suc t \<in> set F" using t by simp
  then have memK: "F ! Suc t \<in> set K" and up: "F ! Suc t \<le> x2" unfolding F by auto
  have lowt: "x \<le> F ! t"
  proof -
    have "F ! t \<in> set F" using t by simp
    then show ?thesis unfolding F by auto
  qed
  have least: "\<And>c. c \<in> {c \<in> set K. F ! t < c} \<Longrightarrow> F ! Suc t \<le> c"
  proof -
    fix c assume "c \<in> {c \<in> set K. F ! t < c}"
    then have c: "c \<in> set K" "F ! t < c" by auto
    show "F ! Suc t \<le> c"
    proof (cases "c \<le> x2")
      case True
      with c lowt have "c \<in> set F" unfolding F by auto
      then obtain u where u: "u < length F" "F ! u = c" by (auto simp: in_set_conv_nth)
      from strict_sorted_nth_less_iff[OF sF _ u(1)] c(2) u(2) t have "t < u" by simp
      then have "Suc t = u \<or> Suc t < u" by auto
      then show ?thesis
      proof
        assume "Suc t = u" with u(2) show ?thesis by simp
      next
        assume "Suc t < u"
        from strict_sorted_nth_less[OF sF this u(1)] u(2) show ?thesis by simp
      qed
    next
      case False
      with up show ?thesis by simp
    qed
  qed
  show ?thesis
    unfolding next_cut_def
    by (rule Min_eqI) (use least memK lt in auto)
qed

lemma cut_segments_spec:
  assumes sF: "sorted_wrt (<) F" and len: "2 \<le> length F" and hd: "hd F = x" and la: "last F = x2"
    and ln: "int (length (cells ln)) = x2 - x"
  shows "\<exists>segs. cut_segments ln F x = Inr segs \<and> length segs = length F - 1 \<and>
           (\<forall>t. Suc t < length F \<longrightarrow>
              cells (segs ! t) = take (nat (F ! Suc t - F ! t)) (drop (nat (F ! t - x)) (cells ln)))"
proof -
  from len hd obtain F' where F: "F = x # F'" and ne: "F' \<noteq> []"
    by (cases F; cases "tl F") auto
  define rel' where "rel' = map (\<lambda>c. c - x) F'"
  have rel: "map (\<lambda>c. c - x) F = 0 # rel'" by (simp add: F rel'_def)
  have s0: "sorted_wrt (<) (0 # rel')"
    using sF unfolding F rel'_def by (auto simp: sorted_wrt_map)
  then have srel: "sorted_wrt (<) rel'" by simp
  have rne: "rel' \<noteq> []" using ne by (simp add: rel'_def)
  have hd0: "0 < hd rel'" using s0 rne by (cases rel') auto
  have lrel: "last rel' = x2 - x"
    using la ne by (simp add: F rel'_def last_map)
  have "\<exists>segs. cut_segments ln F x = Inr segs \<and> map cells segs = chop (cells ln) 0 rel'"
  proof (cases "length F = 2")
    case True
    with F obtain k where k: "F' = [k]" by (cases F'; cases "tl F'") auto
    with la F have "k = x2" by simp
    with k have "rel' = [x2 - x]" by (simp add: rel'_def)
    moreover have "take (nat (x2 - x)) (cells ln) = cells ln" using ln by simp
    ultimately show ?thesis using True by (simp add: cut_segments_def)
  next
    case False
    have d: "map cells (segment_divide ln rel') = chop (cells ln) 0 rel'"
      using srel rne hd0 lrel ln by (intro segment_divide_cells) auto
    have "segment_divide ln (0 # rel') = [] # segment_divide ln rel'" by simp
    with False rel d show ?thesis by (simp add: cut_segments_def)
  qed
  then obtain segs where segs: "cut_segments ln F x = Inr segs"
    "map cells segs = chop (cells ln) 0 rel'" by blast
  have lseg: "length segs = length F - 1"
    using arg_cong[OF segs(2), of length] by (simp add: F rel'_def)
  have "\<forall>t. Suc t < length F \<longrightarrow>
          cells (segs ! t) = take (nat (F ! Suc t - F ! t)) (drop (nat (F ! t - x)) (cells ln))"
  proof (intro allI impI)
    fix t assume t: "Suc t < length F"
    then have t': "t < length rel'" by (simp add: F rel'_def)
    have "cells (segs ! t) = map cells segs ! t" using t lseg by simp
    also have "\<dots> = chop (cells ln) 0 rel' ! t" by (simp add: segs(2))
    also have "\<dots> = take (nat (rel' ! t - (0 # rel') ! t)) (drop (nat ((0 # rel') ! t - 0)) (cells ln))"
      by (rule chop_nth[OF s0 t'])
    also have "(0 # rel') ! t = F ! t - x"
    proof -
      have "t < length F" using t by simp
      then have "map (\<lambda>c. c - x) F ! t = F ! t - x" by (rule nth_map)
      then show ?thesis by (simp add: rel)
    qed
    also have "rel' ! t = F ! Suc t - x"
      using t' by (simp add: F rel'_def)
    finally show "cells (segs ! t) =
        take (nat (F ! Suc t - F ! t)) (drop (nat (F ! t - x)) (cells ln))"
      by (simp add: algebra_simps)
  qed
  with segs(1) lseg show ?thesis by blast
qed

lemma zip_butlast: "length ys < length xs \<Longrightarrow> zip (butlast xs) ys = zip xs ys"
proof (induction xs arbitrary: ys)
  case Nil
  then show ?case by simp
next
  case (Cons x xs)
  show ?case
  proof (cases ys)
    case Nil
    then show ?thesis by simp
  next
    case (Cons y ys')
    with Cons.prems have "length ys' < length xs" by simp
    from Cons.IH[OF this] Cons this show ?thesis by auto
  qed
qed

lemma fill_row_spec:
  assumes K: "sorted_wrt (<) K" and xin: "r_x R \<in> set K" and x2in: "r_x2 R \<in> set K"
    and xlt: "r_x R < r_x2 R" and ln: "int (length (cells ln)) = r_x2 R - r_x R"
    and keys: "map fst cl = K"
  shows "\<exists>cl'. fill_row K R ln cl = Inr cl' \<and> map fst cl' = K \<and>
           (\<forall>k \<in> set K.
              (r_x R \<le> k \<and> k < r_x2 R \<and> map_of cl k = Some None \<longrightarrow>
                 (\<exists>s. map_of cl' k = Some (Some s) \<and>
                      cells s = take (nat (next_cut K k - k)) (drop (nat (k - r_x R)) (cells ln))))
            \<and> (\<not> (r_x R \<le> k \<and> k < r_x2 R \<and> map_of cl k = Some None) \<longrightarrow>
                 map_of cl' k = map_of cl k))"
proof -
  let ?x = "r_x R" and ?x2 = "r_x2 R"
  define F where "F = filter (\<lambda>c. ?x2 \<ge> c \<and> c \<ge> ?x) K"
  have sF: "sorted_wrt (<) F" unfolding F_def using K by (rule sorted_wrt_filter)
  have dF: "distinct F" using sF by (simp add: strict_sorted_iff)
  have setF: "set F = {c \<in> set K. ?x \<le> c \<and> c \<le> ?x2}" unfolding F_def by auto
  have xF: "?x \<in> set F" and x2F: "?x2 \<in> set F" using xin x2in xlt by (auto simp: setF)
  have sorF: "sorted F" using sF by (simp add: strict_sorted_iff)
  have lowF: "\<forall>v \<in> set F. ?x \<le> v" unfolding F_def by simp
  have upF: "\<forall>v \<in> set F. v \<le> ?x2" unfolding F_def by simp
  have hdF: "hd F = ?x" by (rule sorted_hd_least[OF sorF xF lowF])
  have laF: "last F = ?x2" by (rule sorted_last_greatest[OF sorF x2F upF])
  have len2: "2 \<le> length F"
  proof -
    have "card {?x, ?x2} \<le> card (set F)" using xF x2F by (intro card_mono) auto
    also have "\<dots> \<le> length F" by (rule card_length)
    finally show ?thesis using xlt by simp
  qed
  from cut_segments_spec[OF sF len2 hdF laF ln] obtain segs where segs:
    "cut_segments ln F ?x = Inr segs" "length segs = length F - 1"
    "\<forall>t. Suc t < length F \<longrightarrow>
        cells (segs ! t) = take (nat (F ! Suc t - F ! t)) (drop (nat (F ! t - ?x)) (cells ln))"
    by blast
  have zb: "zip F segs = zip (butlast F) segs"
    using zip_butlast[of segs F] segs(2) len2 by simp
  have lb: "length (butlast F) = length segs" using segs(2) by simp
  have db: "distinct (butlast F)" using dF by (rule distinct_butlast)
  have sub: "fst ` set (zip F segs) \<subseteq> fst ` set cl"
  proof -
    have "fst ` set (zip F segs) \<subseteq> set F" by (auto dest: set_zip_leftD)
    also have "\<dots> \<subseteq> set K" using setF by auto
    also have "set K = fst ` set cl" using arg_cong[OF keys, of set] by simp
    finally show ?thesis .
  qed
  from fill_cuts_spec[OF sub] obtain cl' where cl':
    "fill_cuts cl (zip F segs) = Inr cl'" "map fst cl' = map fst cl"
    "\<forall>k. map_of cl' k =
        (if map_of cl k = Some None
         then (case map_of (zip F segs) k of Some s \<Rightarrow> Some (Some s) | None \<Rightarrow> Some None)
         else map_of cl k)" by blast
  have run: "fill_row K R ln cl = Inr cl'"
    using segs(1) cl'(1) by (simp add: fill_row_def F_def[symmetric] Let_def)
  have setb: "set (butlast F) = {c \<in> set K. ?x \<le> c \<and> c < ?x2}"
  proof -
    have Fne: "F \<noteq> []" using len2 by auto
    have app: "butlast F @ [?x2] = F" using append_butlast_last_id[OF Fne] laF by simp
    have A: "set F = insert ?x2 (set (butlast F))"
      using arg_cong[OF app, of set] by auto
    have B: "?x2 \<notin> set (butlast F)"
    proof -
      have "distinct (butlast F @ [?x2])" using dF app by simp
      then show ?thesis by simp
    qed
    have "set (butlast F) = set F - {?x2}" using A B by auto
    also have "\<dots> = {c \<in> set K. ?x \<le> c \<and> c < ?x2}" unfolding setF by auto
    finally show ?thesis .
  qed
  have P: "\<forall>k \<in> set K.
              (?x \<le> k \<and> k < ?x2 \<and> map_of cl k = Some None \<longrightarrow>
                 (\<exists>s. map_of cl' k = Some (Some s) \<and>
                      cells s = take (nat (next_cut K k - k)) (drop (nat (k - ?x)) (cells ln))))
            \<and> (\<not> (?x \<le> k \<and> k < ?x2 \<and> map_of cl k = Some None) \<longrightarrow>
                 map_of cl' k = map_of cl k)"
  proof
    fix k assume kK: "k \<in> set K"
    show "(?x \<le> k \<and> k < ?x2 \<and> map_of cl k = Some None \<longrightarrow>
                 (\<exists>s. map_of cl' k = Some (Some s) \<and>
                      cells s = take (nat (next_cut K k - k)) (drop (nat (k - ?x)) (cells ln))))
            \<and> (\<not> (?x \<le> k \<and> k < ?x2 \<and> map_of cl k = Some None) \<longrightarrow>
                 map_of cl' k = map_of cl k)"
    proof (intro conjI impI)
      assume a: "?x \<le> k \<and> k < ?x2 \<and> map_of cl k = Some None"
      with kK setb have "k \<in> set (butlast F)" by simp
      then obtain t where t: "t < length (butlast F)" "butlast F ! t = k"
        by (auto simp: in_set_conv_nth)
      then have St: "Suc t < length F" by simp
      have Ft: "F ! t = k" using t by (simp add: nth_butlast)
      have "map_of (zip F segs) k = Some (segs ! t)"
        unfolding zb using map_of_zip_nth[OF lb db, of t] t lb by simp
      with cl'(3) a have m: "map_of cl' k = Some (Some (segs ! t))" by simp
      have "cells (segs ! t) = take (nat (F ! Suc t - F ! t)) (drop (nat (F ! t - ?x)) (cells ln))"
        using segs(3) St by blast
      also have "F ! Suc t = next_cut K (F ! t)"
        using next_cut_interval[OF K F_def St] by simp
      finally show "\<exists>s. map_of cl' k = Some (Some s) \<and>
                      cells s = take (nat (next_cut K k - k)) (drop (nat (k - ?x)) (cells ln))"
        using m Ft by simp
    next
      assume n: "\<not> (?x \<le> k \<and> k < ?x2 \<and> map_of cl k = Some None)"
      show "map_of cl' k = map_of cl k"
      proof (cases "map_of cl k = Some None")
        case False
        with cl'(3) show ?thesis by simp
      next
        case True
        with n kK setb have "k \<notin> set (butlast F)" by auto
        then have "map_of (zip F segs) k = None"
          unfolding zb using map_of_zip_is_None[OF lb] by simp
        with cl'(3) True show ?thesis by simp
      qed
    qed
  qed
  have k': "map fst cl' = K" using cl'(2) keys by simp
  show ?thesis by (rule exI[of _ cl'], intro conjI, rule run, rule k', rule P)
qed

lemma find_append:
  "find P (xs @ ys) = (case find P xs of None \<Rightarrow> find P ys | Some x \<Rightarrow> Some x)"
  by (induction xs) auto

lemma next_cut_le:
  "c \<in> set ks \<Longrightarrow> k < c \<Longrightarrow> next_cut ks k \<le> c"
  unfolding next_cut_def by (rule Min_le) auto

lemma next_cut_gt:
  "c \<in> set ks \<Longrightarrow> k < c \<Longrightarrow> k < next_cut ks k"
proof -
  assume a: "c \<in> set ks" "k < c"
  have "Min {c \<in> set ks. k < c} \<in> {c \<in> set ks. k < c}"
    by (rule Min_in) (use a in auto)
  then show ?thesis by (simp add: next_cut_def)
qed

lemma take_drop_take_drop:
  assumes "a + n \<le> w"
  shows "take n (drop a (take w (drop b xs))) = take n (drop (b + a) xs)"
proof -
  have "drop a (take w (drop b xs)) = take (w - a) (drop (b + a) xs)"
    by (simp add: drop_take add.commute)
  then show ?thesis using assms by (simp add: min_def)
qed

text \<open>one row of one widget\<close>

lemma entry_row_step:
  assumes nt: "\<not> is_transparent (env (fst e))"
    and K: "sorted_wrt (<) row_cuts"
    and geom: "0 < r_width (fst (snd e))" "0 < r_height (fst (snd e))"
              "0 \<le> r_width (snd (snd (snd e)))" "0 \<le> r_height (snd (snd (snd e)))"
    and ne: "region_bool (entry_clipped e)"
    and row: "r_y (entry_clipped e) \<le> py" "py < r_y2 (entry_clipped e)"
    and xin: "r_x (entry_clipped e) \<in> set row_cuts" "r_x2 (entry_clipped e) \<in> set row_cuts"
    and ln: "cells ln = take (nat (r_width (entry_clipped e)))
                (drop (nat (r_x (entry_clipped e) - r_x (fst (snd e))))
                   (cells (get_lines (env (fst e)) ! nat (py - r_y (fst (snd e))))))"
    and full: "int (length (cells (get_lines (env (fst e)) ! nat (py - r_y (fst (snd e)))))) =
                 r_width (fst (snd e))"
    and inv: "row_inv env row_cuts P py cl"
  shows "\<exists>cl'. fill_row row_cuts (entry_clipped e) ln cl = Inr cl' \<and>
               row_inv env row_cuts (P @ [e]) py cl'"
proof -
  let ?R = "entry_clipped e"
  let ?C = "cells (get_lines (env (fst e)) ! nat (py - r_y (fst (snd e))))"
  note g = inter_geom[OF geom ne[unfolded entry_clipped_def], folded entry_clipped_def]
  have xlt: "r_x ?R < r_x2 ?R" using g(5) by (simp add: r_x2_def)
  have xge: "r_x (fst (snd e)) \<le> r_x ?R" using g(1) by simp
  have x2le: "r_x2 ?R \<le> r_x2 (fst (snd e))" using g(2) by simp
  have lenln: "int (length (cells ln)) = r_x2 ?R - r_x ?R"
  proof -
    have "r_x ?R - r_x (fst (snd e)) + r_width ?R \<le> r_width (fst (snd e))"
      using x2le by (simp add: r_x2_def)
    then have "nat (r_width ?R) \<le> length ?C - nat (r_x ?R - r_x (fst (snd e)))"
      using full xge g(5) by linarith
    then have "length (cells ln) = nat (r_width ?R)" unfolding ln by simp
    then show ?thesis using g(5) by (simp add: r_x2_def)
  qed
  from inv have keys: "map fst cl = row_cuts"
    and vals: "\<forall>k \<in> set row_cuts. \<exists>v. map_of cl k = Some v \<and> bucket_ok env row_cuts P py k v"
    by (simp_all add: row_inv_def)
  from fill_row_spec[OF K xin xlt lenln keys] obtain cl' where cl':
    "fill_row row_cuts ?R ln cl = Inr cl'" "map fst cl' = row_cuts"
    "\<forall>k \<in> set row_cuts.
        (r_x ?R \<le> k \<and> k < r_x2 ?R \<and> map_of cl k = Some None \<longrightarrow>
           (\<exists>s. map_of cl' k = Some (Some s) \<and>
                cells s = take (nat (next_cut row_cuts k - k)) (drop (nat (k - r_x ?R)) (cells ln))))
      \<and> (\<not> (r_x ?R \<le> k \<and> k < r_x2 ?R \<and> map_of cl k = Some None) \<longrightarrow>
           map_of cl' k = map_of cl k)" by blast
  have cov: "\<And>k. entry_covers env e k py \<longleftrightarrow> r_x ?R \<le> k \<and> k < r_x2 ?R"
    using nt row by (auto simp: entry_covers_def contains_def)
  have "\<forall>k \<in> set row_cuts. \<exists>v. map_of cl' k = Some v \<and> bucket_ok env row_cuts (P @ [e]) py k v"
  proof
    fix k assume kK: "k \<in> set row_cuts"
    from vals kK obtain v where v: "map_of cl k = Some v" "bucket_ok env row_cuts P py k v" by blast
    show "\<exists>v. map_of cl' k = Some v \<and> bucket_ok env row_cuts (P @ [e]) py k v"
    proof (cases "r_x ?R \<le> k \<and> k < r_x2 ?R \<and> map_of cl k = Some None")
      case True
      with cl'(3) kK obtain s where s: "map_of cl' k = Some (Some s)"
        "cells s = take (nat (next_cut row_cuts k - k)) (drop (nat (k - r_x ?R)) (cells ln))"
        by blast
      from True v have vN: "v = None" by simp
      with v(2) have fP: "find (\<lambda>e. entry_covers env e k py) P = None"
        by (auto simp: bucket_ok_def split: option.splits)
      have fe: "find (\<lambda>e. entry_covers env e k py) (P @ [e]) = Some e"
        using fP True cov by (simp add: find_append)
      have nle: "next_cut row_cuts k \<le> r_x2 ?R" using next_cut_le[OF xin(2)] True by simp
      have ngt: "k < next_cut row_cuts k" using next_cut_gt[OF xin(2)] True by simp
      have "cells s = take (nat (next_cut row_cuts k - k))
               (drop (nat (k - r_x ?R))
                  (take (nat (r_width ?R)) (drop (nat (r_x ?R - r_x (fst (snd e)))) ?C)))"
        using s(2) ln by simp
      also have "\<dots> = take (nat (next_cut row_cuts k - k))
               (drop (nat (r_x ?R - r_x (fst (snd e))) + nat (k - r_x ?R)) ?C)"
      proof (rule take_drop_take_drop)
        show "nat (k - r_x ?R) + nat (next_cut row_cuts k - k) \<le> nat (r_width ?R)"
          using nle ngt True by (simp add: r_x2_def) linarith
      qed
      also have "nat (r_x ?R - r_x (fst (snd e))) + nat (k - r_x ?R) = nat (k - r_x (fst (snd e)))"
        using xge True by linarith
      finally have "cells s = entry_cells env e py k (next_cut row_cuts k)"
        by (simp add: entry_cells_def)
      with s(1) fe show ?thesis by (simp add: bucket_ok_def)
    next
      case False
      with cl'(3) kK v have m: "map_of cl' k = Some v" by simp
      have "bucket_ok env row_cuts (P @ [e]) py k v"
      proof (cases "find (\<lambda>e. entry_covers env e k py) P")
        case (Some e')
        with v(2) show ?thesis by (simp add: bucket_ok_def find_append)
      next
        case None
        with v(2) have "v = None" by (simp add: bucket_ok_def)
        with v(1) False have "\<not> entry_covers env e k py" using cov by simp
        with None \<open>v = None\<close> show ?thesis by (simp add: bucket_ok_def find_append)
      qed
      with m show ?thesis by blast
    qed
  qed
  with cl'(1,2) show ?thesis by (auto simp: row_inv_def)
qed

section \<open>The fill loop\<close>

lemma fill_rows_Cons:
  assumes "py_get cs y = Inr rc" "py_get chops y = Inr cl"
  shows "fill_rows cs R chops ((y, ln) # rest) =
     (case fill_row rc R ln cl of Inl e \<Rightarrow> Inl e
      | Inr cl' \<Rightarrow> fill_rows cs R (py_set chops y cl') rest)"
  using assms by (simp add: fill_row_def Let_def split: sum.splits)

lemma py_get_nth: "0 \<le> y \<Longrightarrow> nat y < length xs \<Longrightarrow> py_get xs y = Inr (xs ! nat y)"
  by (simp add: py_get_def py_norm_def)

lemma py_set_nth: "0 \<le> y \<Longrightarrow> py_set xs y v = xs[nat y := v]"
  by (simp add: py_set_def py_norm_def)

lemma fill_rows_generic:
  fixes I J :: "int \<Rightarrow> (int \<times> line option) list \<Rightarrow> bool"
  assumes "length chops = length cs"
    and "distinct (map fst rows)"
    and "\<forall>(y, ln) \<in> set rows. 0 \<le> y \<and> nat y < length cs"
    and "\<forall>(y, ln) \<in> set rows. \<forall>cl. I y cl \<longrightarrow>
            (\<exists>cl'. fill_row (cs ! nat y) R ln cl = Inr cl' \<and> J y cl')"
    and "\<forall>(y, ln) \<in> set rows. I y (chops ! nat y)"
  shows "\<exists>chops'. fill_rows cs R chops rows = Inr chops' \<and> length chops' = length cs \<and>
      (\<forall>i < length cs. (int i \<in> fst ` set rows \<longrightarrow> J (int i) (chops' ! i)) \<and>
                         (int i \<notin> fst ` set rows \<longrightarrow> chops' ! i = chops ! i))"
  using assms
proof (induction rows arbitrary: chops)
  case Nil
  then show ?case by simp
next
  case (Cons r rows)
  obtain y ln where r: "r = (y, ln)" by (cases r)
  from Cons.prems(3) r have y: "0 \<le> y" "nat y < length cs" by auto
  from Cons.prems(5) r have Iy: "I y (chops ! nat y)" by auto
  from Cons.prems(4) r Iy obtain cl' where cl':
    "fill_row (cs ! nat y) R ln (chops ! nat y) = Inr cl'" "J y cl'" by auto
  let ?c1 = "chops[nat y := cl']"
  have g1: "py_get cs y = Inr (cs ! nat y)" using y by (rule py_get_nth)
  have g2: "py_get chops y = Inr (chops ! nat y)"
    using y Cons.prems(1) by (intro py_get_nth) simp_all
  have unf: "fill_rows cs R chops (r # rows) = fill_rows cs R ?c1 rows"
    unfolding r fill_rows_Cons[OF g1 g2] using cl'(1) y(1) by (simp add: py_set_nth)
  have notin: "y \<notin> fst ` set rows" using Cons.prems(2) r by simp
  have p1: "length ?c1 = length cs" using Cons.prems(1) by simp
  have p2: "distinct (map fst rows)" using Cons.prems(2) by simp
  have p3: "\<forall>(y, ln) \<in> set rows. 0 \<le> y \<and> nat y < length cs" using Cons.prems(3) by simp
  have p4: "\<forall>(y, ln) \<in> set rows. \<forall>cl. I y cl \<longrightarrow>
            (\<exists>cl'. fill_row (cs ! nat y) R ln cl = Inr cl' \<and> J y cl')"
    using Cons.prems(4) by simp
  have p5: "\<forall>(y', ln') \<in> set rows. I y' (?c1 ! nat y')"
  proof (clarify)
    fix y' ln' assume m: "(y', ln') \<in> set rows"
    with notin have "y' \<noteq> y" by force
    moreover from p3 m have "0 \<le> y'" by auto
    ultimately have "nat y' \<noteq> nat y" using y(1) by simp
    moreover from Cons.prems(5) m have "I y' (chops ! nat y')" by auto
    ultimately show "I y' (?c1 ! nat y')" by simp
  qed
  from Cons.IH[OF p1 p2 p3 p4 p5] obtain chops' where ch:
    "fill_rows cs R ?c1 rows = Inr chops'" "length chops' = length cs"
    "\<forall>i < length cs. (int i \<in> fst ` set rows \<longrightarrow> J (int i) (chops' ! i)) \<and>
                         (int i \<notin> fst ` set rows \<longrightarrow> chops' ! i = ?c1 ! i)" by blast
  have fin: "\<forall>i < length cs. (int i \<in> fst ` set (r # rows) \<longrightarrow> J (int i) (chops' ! i)) \<and>
                         (int i \<notin> fst ` set (r # rows) \<longrightarrow> chops' ! i = chops ! i)"
  proof (intro allI impI conjI)
    fix i assume i: "i < length cs" and mem: "int i \<in> fst ` set (r # rows)"
    show "J (int i) (chops' ! i)"
    proof (cases "int i \<in> fst ` set rows")
      case True
      with ch(3) i show ?thesis by blast
    next
      case False
      with mem r have iy: "int i = y" by simp
      then have "nat y = i" by simp
      with ch(3) i False have "chops' ! i = ?c1 ! i" by blast
      also have "\<dots> = cl'" using \<open>nat y = i\<close> i Cons.prems(1) by simp
      finally show ?thesis using cl'(2) iy by simp
    qed
  next
    fix i assume i: "i < length cs" and mem: "int i \<notin> fst ` set (r # rows)"
    then have a: "int i \<notin> fst ` set rows" and b: "int i \<noteq> y" using r by auto
    from b y(1) have "i \<noteq> nat y" by auto
    with ch(3) i a show "chops' ! i = chops ! i" by simp
  qed
  have run: "fill_rows cs R chops (r # rows) = Inr chops'" using unf ch(1) by simp
  show ?case by (rule exI[of _ chops'], intro conjI, rule run, rule ch(2), rule fin)
qed

lemma row_inv_skip:
  assumes "\<forall>k. \<not> entry_covers env e k py" and "row_inv env rc P py cl"
  shows "row_inv env rc (P @ [e]) py cl"
proof -
  have "\<And>k. find (\<lambda>e. entry_covers env e k py) (P @ [e]) = find (\<lambda>e. entry_covers env e k py) P"
    using assms(1) by (simp add: find_append split: option.splits)
  with assms(2) show ?thesis by (simp add: row_inv_def bucket_ok_def)
qed

lemma chops_inv_skip:
  assumes "\<forall>k py. \<not> entry_covers env e k py" and "chops_inv env K P chops"
  shows "chops_inv env K (P @ [e]) chops"
  using assms by (simp add: chops_inv_def row_inv_skip)

lemma empty_region_covers_nothing:
  "\<not> region_bool r \<Longrightarrow> \<not> contains r px py"
  by (auto simp: region_bool_def contains_def r_x2_def r_y2_def)

lemma length_y_range [simp]: "length (y_range r) = nat (r_height r)"
  by (simp add: y_range_def)

lemma nth_y_range: "j < nat (r_height r) \<Longrightarrow> y_range r ! j = r_y r + int j"
  by (simp add: y_range_def)

lemma distinct_y_range: "distinct (y_range r)"
  by (simp add: y_range_def distinct_map inj_on_def)

lemma set_y_range: "set (y_range r) = {y. r_y r \<le> y \<and> y < r_y2 r}"
proof -
  have "\<And>y. r_y r \<le> y \<Longrightarrow> y < r_y r + r_height r \<Longrightarrow>
         y \<in> (\<lambda>i. r_y r + int i) ` {0..<nat (r_height r)}"
  proof -
    fix y assume a: "r_y r \<le> y" "y < r_y r + r_height r"
    have "y = r_y r + int (nat (y - r_y r))" using a by simp
    moreover have "nat (y - r_y r) \<in> {0..<nat (r_height r)}" using a by auto
    ultimately show "y \<in> (\<lambda>i. r_y r + int i) ` {0..<nat (r_height r)}" by (rule image_eqI)
  qed
  then show ?thesis by (auto simp: y_range_def r_y2_def)
qed

lemma fill_entry:
  assumes ok: "entry_ok env K e" and srt: "\<forall>i < length K. sorted_wrt (<) (K ! i)"
    and inv: "chops_inv env K P chops"
  shows "\<exists>chops'. fill_renders env K chops (e # rest) = fill_renders env K chops' rest \<and>
           chops_inv env K (P @ [e]) chops'"
proof -
  obtain w region order clip where e: "e = (w, region, order, clip)" by (cases e) auto
  let ?R = "entry_clipped e"
  have R: "?R = intersection region clip" by (simp add: e entry_clipped_def)
  show ?thesis
  proof (cases "is_transparent (env w)")
    case True
    then have "\<forall>k py. \<not> entry_covers env e k py" by (simp add: entry_covers_def e)
    from chops_inv_skip[OF this inv] have ci: "chops_inv env K (P @ [e]) chops" .
    have "fill_renders env K chops (e # rest) = fill_renders env K chops rest"
      using True by (simp add: e)
    with ci show ?thesis by blast
  next
    case nt: False
    from ok nt have geom: "0 < r_width region" "0 < r_height region"
        "0 \<le> r_width clip" "0 \<le> r_height clip"
      and len: "length (get_lines (env w)) = nat (r_height region)"
      and wid: "\<forall>ln \<in> set (get_lines (env w)). int (length (cells ln)) = r_width region"
      and scr: "region_bool ?R \<longrightarrow>
           0 \<le> r_y ?R \<and> r_y2 ?R \<le> int (length K) \<and>
           (\<forall>i. r_y ?R \<le> int i \<and> int i < r_y2 ?R \<longrightarrow>
                r_x ?R \<in> set (K ! i) \<and> r_x2 ?R \<in> set (K ! i))"
      by (simp_all add: entry_ok_def e)
    note gr = get_render_spec[of region clip env w, OF geom len wid]
    show ?thesis
    proof (cases "region_bool ?R")
      case False
      then have "\<forall>k py. \<not> entry_covers env e k py"
        by (simp add: entry_covers_def empty_region_covers_nothing)
      from chops_inv_skip[OF this inv] have ci: "chops_inv env K (P @ [e]) chops" .
      have gn: "get_render env w region clip = Inr None" using gr(1) False by (simp add: R)
      have "fill_renders env K chops (e # rest) = fill_renders env K chops rest"
        using nt gn by (simp add: e)
      with ci show ?thesis by blast
    next
      case True
      from gr(2) True obtain lines where lines:
        "get_render env w region clip = Inr (Some (region, clip, lines))"
        "length lines = nat (r_height ?R)"
        "\<forall>j < length lines. cells (lines ! j) =
            take (nat (r_width ?R)) (drop (nat (r_x ?R - r_x region))
               (cells (get_lines (env w) ! (j + nat (r_y ?R - r_y region)))))"
        unfolding R by blast
      note g = inter_geom[OF geom True[unfolded R], folded R]
      from scr True have y0: "0 \<le> r_y ?R" and y2: "r_y2 ?R \<le> int (length K)"
        and cutsin: "\<And>i. r_y ?R \<le> int i \<Longrightarrow> int i < r_y2 ?R \<Longrightarrow>
                r_x ?R \<in> set (K ! i) \<and> r_x2 ?R \<in> set (K ! i)" by auto
      let ?rows = "zip (y_range ?R) lines"
      let ?I = "\<lambda>y cl. row_inv env (K ! nat y) P y cl"
      let ?J = "\<lambda>y cl. row_inv env (K ! nat y) (P @ [e]) y cl"
      from inv have lch: "length chops = length K"
        and rinv: "\<forall>i < length K. row_inv env (K ! i) P (int i) (chops ! i)"
        by (simp_all add: chops_inv_def)
      have mf: "map fst ?rows = y_range ?R" using lines(2) by simp
      have a2: "distinct (map fst ?rows)" unfolding mf by (rule distinct_y_range)
      have rowmem: "\<And>y ln. (y, ln) \<in> set ?rows \<Longrightarrow>
          \<exists>j < nat (r_height ?R). y = r_y ?R + int j \<and> ln = lines ! j"
      proof -
        fix y ln assume "(y, ln) \<in> set ?rows"
        then obtain j where j: "j < length ?rows" "?rows ! j = (y, ln)"
          by (auto simp: in_set_conv_nth)
        then have "j < nat (r_height ?R)" using lines(2) by simp
        moreover from j this have "y = r_y ?R + int j" "ln = lines ! j"
          using lines(2) by (simp_all add: nth_y_range)
        ultimately show "\<exists>j < nat (r_height ?R). y = r_y ?R + int j \<and> ln = lines ! j" by blast
      qed
      have yr: "\<And>y ln. (y, ln) \<in> set ?rows \<Longrightarrow> r_y ?R \<le> y \<and> y < r_y2 ?R"
        using rowmem by (fastforce simp: r_y2_def)
      have a3: "\<forall>(y, ln) \<in> set ?rows. 0 \<le> y \<and> nat y < length K"
        using yr y0 y2 by fastforce
      have a4: "\<forall>(y, ln) \<in> set ?rows. \<forall>cl. ?I y cl \<longrightarrow>
            (\<exists>cl'. fill_row (K ! nat y) ?R ln cl = Inr cl' \<and> ?J y cl')"
      proof (clarify)
        fix y ln cl assume m: "(y, ln) \<in> set ?rows" and I: "row_inv env (K ! nat y) P y cl"
        from rowmem[OF m] obtain j where j: "j < nat (r_height ?R)" "y = r_y ?R + int j"
          "ln = lines ! j" by blast
        from yr[OF m] have yy: "r_y ?R \<le> y" "y < r_y2 ?R" by auto
        from a3 m have ny: "0 \<le> y" "nat y < length K" by auto
        have idx: "nat (y - r_y region) = j + nat (r_y ?R - r_y region)"
          using j(2) g(3) by simp
        have lnc: "cells ln = take (nat (r_width ?R)) (drop (nat (r_x ?R - r_x region))
               (cells (get_lines (env w) ! nat (y - r_y region))))"
          using lines(3) j lines(2) idx by simp
        have "nat (y - r_y region) < length (get_lines (env w))"
          using len yy g(3,4) by (auto simp add: r_y2_def)
        then have "get_lines (env w) ! nat (y - r_y region) \<in> set (get_lines (env w))" by simp
        with wid have full: "int (length (cells (get_lines (env w) ! nat (y - r_y region)))) =
                 r_width region" by blast
        have ci: "r_x ?R \<in> set (K ! nat y)" "r_x2 ?R \<in> set (K ! nat y)"
          using cutsin[of "nat y"] yy ny by simp_all
        from entry_row_step[of env e "K ! nat y" y ln P cl] nt srt ny geom True yy ci lnc full I
        show "\<exists>cl'. fill_row (K ! nat y) ?R ln cl = Inr cl' \<and>
                 row_inv env (K ! nat y) (P @ [e]) y cl'"
          by (simp add: e)
      qed
      have a5: "\<forall>(y, ln) \<in> set ?rows. ?I y (chops ! nat y)"
        using a3 rinv by fastforce
      from fill_rows_generic[of chops K ?rows ?I ?R ?J, OF lch a2 a3 a4 a5]
      obtain chops' where ch: "fill_rows K ?R chops ?rows = Inr chops'"
        "length chops' = length K"
        "\<forall>i < length K. (int i \<in> fst ` set ?rows \<longrightarrow> ?J (int i) (chops' ! i)) \<and>
                         (int i \<notin> fst ` set ?rows \<longrightarrow> chops' ! i = chops ! i)" by blast
      have run: "fill_renders env K chops (e # rest) = fill_renders env K chops' rest"
        using nt lines(1) ch(1)[unfolded R] by (simp add: e)
      have "\<forall>i < length K. row_inv env (K ! i) (P @ [e]) (int i) (chops' ! i)"
      proof (intro allI impI)
        fix i assume i: "i < length K"
        show "row_inv env (K ! i) (P @ [e]) (int i) (chops' ! i)"
        proof (cases "int i \<in> fst ` set ?rows")
          case True
          with ch(3) i show ?thesis by auto
        next
          case False
          with ch(3) i have same: "chops' ! i = chops ! i" by blast
          have "fst ` set ?rows = set (y_range ?R)"
            using arg_cong[OF mf, of set] by simp
          with False have "\<not> (r_y ?R \<le> int i \<and> int i < r_y2 ?R)"
            by (simp add: set_y_range)
          then have "\<forall>k. \<not> entry_covers env e k (int i)"
            by (auto simp: entry_covers_def contains_def)
          from row_inv_skip[OF this] rinv i same show ?thesis by simp
        qed
      qed
      with ch(2) have "chops_inv env K (P @ [e]) chops'" by (simp add: chops_inv_def)
      with run show ?thesis by blast
    qed
  qed
qed

lemma fill_renders_spec:
  assumes "\<forall>e \<in> set L. entry_ok env K e" and "\<forall>i < length K. sorted_wrt (<) (K ! i)"
    and "chops_inv env K P chops"
  shows "\<exists>chops'. fill_renders env K chops L = Inr chops' \<and> chops_inv env K (P @ L) chops'"
  using assms
proof (induction L arbitrary: P chops)
  case Nil
  then show ?case by simp
next
  case (Cons e L)
  from Cons.prems(1) have ok: "entry_ok env K e" and rest: "\<forall>e \<in> set L. entry_ok env K e"
    by simp_all
  from fill_entry[OF ok Cons.prems(2,3), of L] obtain c1 where c1:
    "fill_renders env K chops (e # L) = fill_renders env K c1 L"
    "chops_inv env K (P @ [e]) c1" by blast
  from Cons.IH[OF rest Cons.prems(2) c1(2)] c1(1) show ?case by simp
qed

section \<open>Rendering a well-formed arrangement\<close>

lemma dict_set_absent: "k \<notin> fst ` set d \<Longrightarrow> dict_set d k v = d @ [(k, v)]"
  by (induction d k v rule: dict_set.induct) auto

lemma fold_fromkeys:
  "distinct ks \<Longrightarrow> set ks \<inter> fst ` set d = {} \<Longrightarrow>
     fold (\<lambda>k d. dict_set d k None) ks d = d @ map (\<lambda>k. (k, None)) ks"
proof (induction ks arbitrary: d)
  case Nil
  then show ?case by simp
next
  case (Cons k ks)
  from Cons.prems have k: "k \<notin> fst ` set d" and d: "distinct ks" and nk: "k \<notin> set ks"
    and dj: "set ks \<inter> fst ` set d = {}" by auto
  have "set ks \<inter> fst ` set (d @ [(k, None)]) = {}" using dj nk by auto
  from Cons.IH[OF d this] dict_set_absent[OF k] show ?case by simp
qed

lemma fromkeys_distinct: "distinct ks \<Longrightarrow> fromkeys ks = map (\<lambda>k. (k, None)) ks"
  using fold_fromkeys[of ks "[]"] by (simp add: fromkeys_def)

lemma row_inv_initial:
  assumes "distinct ks"
  shows "row_inv env ks [] py (fromkeys ks)"
proof -
  have "map_of (map (\<lambda>k. (k, None)) ks) k = Some None" if "k \<in> set ks" for k
    using that by (induction ks) auto
  then show ?thesis
    using assms by (simp add: row_inv_def fromkeys_distinct bucket_ok_def comp_def)
qed

lemma set_sorted_reverse [simp]: "set (sorted_reverse key xs) = set xs"
  by (simp add: sorted_reverse_def)

lemma widget_regions_eq:
  "widget_regions env c =
     sorted_reverse (\<lambda>e. fst (snd (snd e)))
       (map entry_of (filter (\<lambda>item. visible (env (fst item))) (map_c c)))"
proof -
  have a: "(\<lambda>(w, rr). (w, rr_region rr, rr_order rr, rr_clip rr)) = entry_of"
    by (auto simp: entry_of_def)
  have b: "(\<lambda>(w, rr). visible (env w)) = (\<lambda>item. visible (env (fst item)))"
    by auto
  show ?thesis
    by (cases "map_c c = []") (simp_all add: widget_regions_def a b sorted_reverse_def)
qed

lemma set_widget_regions:
  "set (widget_regions env c) = entry_of ` {item \<in> set (map_c c). visible (env (fst item))}"
  by (auto simp: widget_regions_eq)

lemma entry_clipped_of [simp]: "entry_clipped (entry_of item) = clipped (snd item)"
  by (simp add: entry_clipped_def entry_of_def clipped_def)

lemma entry_covers_of:
  "visible (env (fst item)) \<Longrightarrow> entry_covers env (entry_of item) px py = covers env item px py"
  by (simp add: entry_covers_def covers_def drawn_def) (simp add: entry_of_def)

lemma well_arranged_cuts:
  assumes "well_arranged env c"
  shows "cuts c = compute_cuts c" "length (cuts c) = nat (s_height (size_c c))"
  using assms by (auto simp: well_arranged_def cuts_def length_compute_cuts)

lemma well_arranged_entry_ok:
  assumes wa: "well_arranged env c" and e: "e \<in> set (widget_regions env c)"
  shows "entry_ok env (cuts c) e"
proof -
  from e obtain item where item: "item \<in> set (map_c c)" "visible (env (fst item))"
    "e = entry_of item" by (auto simp: set_widget_regions)
  note cc = well_arranged_cuts[OF wa]
  from wa have w0: "0 \<le> s_width (size_c c)" by (simp add: well_arranged_def)
  show ?thesis
  proof (cases "is_transparent (env (fst item))")
    case True
    then show ?thesis by (simp add: entry_ok_def item(3) entry_of_def)
  next
    case False
    with item have dr: "drawn env item" by (simp add: drawn_def)
    with wa item(1) have
      g: "0 < r_width (rr_region (snd item))" "0 < r_height (rr_region (snd item))"
         "0 \<le> r_width (rr_clip (snd item))" "0 \<le> r_height (rr_clip (snd item))"
      and scr: "region_bool (clipped (snd item)) \<longrightarrow>
           contains_region (region_of_size (size_c c)) (clipped (snd item))"
      and ln: "length (get_lines (env (fst item))) = nat (r_height (rr_region (snd item)))"
         "\<forall>ln \<in> set (get_lines (env (fst item))).
           int (length (cells ln)) = r_width (rr_region (snd item))"
      by (simp_all add: well_arranged_def)
    let ?R = "clipped (snd item)"
    have "region_bool ?R \<longrightarrow>
           0 \<le> r_y ?R \<and> r_y2 ?R \<le> int (length (cuts c)) \<and>
           (\<forall>i. r_y ?R \<le> int i \<and> int i < r_y2 ?R \<longrightarrow>
                r_x ?R \<in> set (cuts c ! i) \<and> r_x2 ?R \<in> set (cuts c ! i))"
    proof
      assume ne: "region_bool ?R"
      with scr have cr: "contains_region (region_of_size (size_c c)) ?R" by simp
      note ig = inter_geom[OF g ne[unfolded clipped_def], folded clipped_def]
      have y0: "0 \<le> r_y ?R" and y2: "r_y2 ?R \<le> s_height (size_c c)"
        using cr by (simp_all add: contains_region_def region_of_size_def r_y2_def)
      have hpos: "0 < s_height (size_c c)" using y0 y2 ig(6) by (simp add: r_y2_def)
      have "\<forall>i. r_y ?R \<le> int i \<and> int i < r_y2 ?R \<longrightarrow>
                r_x ?R \<in> set (cuts c ! i) \<and> r_x2 ?R \<in> set (cuts c ! i)"
      proof (intro allI impI)
        fix i assume i: "r_y ?R \<le> int i \<and> int i < r_y2 ?R"
        with y2 have ih: "i < nat (s_height (size_c c))" by linarith
        from compute_cuts_row(5)[OF w0 ih item(1)] ne cr i
        show "r_x ?R \<in> set (cuts c ! i) \<and> r_x2 ?R \<in> set (cuts c ! i)"
          by (simp add: cc(1) clipped_def)
      qed
      with y0 y2 hpos cc(2) show "0 \<le> r_y ?R \<and> r_y2 ?R \<le> int (length (cuts c)) \<and>
           (\<forall>i. r_y ?R \<le> int i \<and> int i < r_y2 ?R \<longrightarrow>
                r_x ?R \<in> set (cuts c ! i) \<and> r_x2 ?R \<in> set (cuts c ! i))" by simp
    qed
    with g ln show ?thesis
      by (simp add: entry_ok_def item(3)) (simp add: entry_of_def)
  qed
qed

lemma well_arranged_rows_sorted:
  assumes wa: "well_arranged env c" and i: "i < length (cuts c)"
  shows "sorted_wrt (<) (cuts c ! i)" "hd (cuts c ! i) = 0" "last (cuts c ! i) = s_width (size_c c)"
proof -
  note cc = well_arranged_cuts[OF wa]
  from wa have w0: "0 \<le> s_width (size_c c)" by (simp add: well_arranged_def)
  from i cc(2) have ih: "i < nat (s_height (size_c c))" by simp
  from compute_cuts_row(2-4)[OF w0 ih] cc(1)
  show "sorted_wrt (<) (cuts c ! i)" "hd (cuts c ! i) = 0" "last (cuts c ! i) = s_width (size_c c)"
    by simp_all
qed

lemma render_fill:
  assumes wa: "well_arranged env c"
  shows "\<exists>chops'. fill_renders env (cuts c) (map fromkeys (cuts c)) (widget_regions env c)
                     = Inr chops' \<and>
                   chops_inv env (cuts c) (widget_regions env c) chops'"
proof -
  have a1: "\<forall>e \<in> set (widget_regions env c). entry_ok env (cuts c) e"
    using well_arranged_entry_ok[OF wa] by blast
  have a2: "\<forall>i < length (cuts c). sorted_wrt (<) (cuts c ! i)"
    using well_arranged_rows_sorted(1)[OF wa] by blast
  have a3: "chops_inv env (cuts c) [] (map fromkeys (cuts c))"
    using a2 by (simp add: chops_inv_def row_inv_initial strict_sorted_iff)
  from fill_renders_spec[OF a1 a2 a3] show ?thesis by simp
qed

section \<open>The cells of a rendered row\<close>

lemma cells_concat: "cells (concat xs) = concat (map cells xs)"
  by (induction xs) simp_all

lemma row_inv_assemble:
  assumes inv: "row_inv env row_cuts P py cl" and d: "distinct row_cuts"
  shows "cells (assemble_bucket cl) = concat (map (bucket_cells env row_cuts P py) row_cuts)"
proof -
  from inv have keys: "map fst cl = row_cuts"
    and vals: "\<forall>k \<in> set row_cuts. \<exists>v. map_of cl k = Some v \<and> bucket_ok env row_cuts P py k v"
    by (simp_all add: row_inv_def)
  have dk: "distinct (map fst cl)" using keys d by simp
  have each: "\<forall>kv \<in> set cl. cells (case snd kv of None \<Rightarrow> [] | Some ln \<Rightarrow> ln)
                 = bucket_cells env row_cuts P py (fst kv)"
  proof
    fix kv assume m: "kv \<in> set cl"
    obtain k v where kv: "kv = (k, v)" by (cases kv)
    from m kv have mo: "map_of cl k = Some v" using dk by simp
    from m kv keys have "k \<in> set row_cuts" by force
    with vals mo have "bucket_ok env row_cuts P py k v" by auto
    then show "cells (case snd kv of None \<Rightarrow> [] | Some ln \<Rightarrow> ln)
                 = bucket_cells env row_cuts P py (fst kv)"
      by (auto simp: kv bucket_ok_def bucket_cells_def split: option.splits)
  qed
  have "cells (assemble_bucket cl) =
          concat (map (\<lambda>kv. cells (case snd kv of None \<Rightarrow> [] | Some ln \<Rightarrow> ln)) cl)"
    by (simp add: assemble_bucket_def cells_concat comp_def case_prod_unfold)
  also have "\<dots> = concat (map (\<lambda>kv. bucket_cells env row_cuts P py (fst kv)) cl)"
    using each by (metis (mono_tags, lifting) map_eq_conv)
  also have "\<dots> = concat (map (bucket_cells env row_cuts P py) (map fst cl))"
    by (simp add: comp_def)
  finally show ?thesis by (simp add: keys)
qed

lemma covered_bucket:
  assumes ok: "entry_ok env K e" and cov: "entry_covers env e k py"
    and py: "0 \<le> py" and kin: "k \<in> set (K ! nat py)"
  shows "k < next_cut (K ! nat py) k"
    and "next_cut (K ! nat py) k \<le> r_x2 (entry_clipped e)"
    and "length (entry_cells env e py k (next_cut (K ! nat py) k)) = nat (next_cut (K ! nat py) k - k)"
    and "\<And>px. k \<le> px \<Longrightarrow> px < next_cut (K ! nat py) k \<Longrightarrow>
           entry_cells env e py k (next_cut (K ! nat py) k) ! nat (px - k) =
           cells (get_lines (env (fst e)) ! nat (py - r_y (fst (snd e)))) ! nat (px - r_x (fst (snd e)))"
proof -
  let ?R = "entry_clipped e" and ?reg = "fst (snd e)"
  let ?n = "next_cut (K ! nat py) k"
  let ?C = "cells (get_lines (env (fst e)) ! nat (py - r_y ?reg))"
  from cov have nt: "\<not> is_transparent (env (fst e))" and con: "contains ?R k py"
    by (simp_all add: entry_covers_def)
  from con have ne: "region_bool ?R" using empty_region_covers_nothing by blast
  from ok nt ne have geom: "0 < r_width ?reg" "0 < r_height ?reg"
        "0 \<le> r_width (snd (snd (snd e)))" "0 \<le> r_height (snd (snd (snd e)))"
    and len: "length (get_lines (env (fst e))) = nat (r_height ?reg)"
    and wid: "\<forall>ln \<in> set (get_lines (env (fst e))). int (length (cells ln)) = r_width ?reg"
    and cutsin: "\<forall>i. r_y ?R \<le> int i \<and> int i < r_y2 ?R \<longrightarrow>
                r_x ?R \<in> set (K ! i) \<and> r_x2 ?R \<in> set (K ! i)"
    by (simp_all add: entry_ok_def)
  note g = inter_geom[OF geom ne[unfolded entry_clipped_def], folded entry_clipped_def]
  from con have xr: "r_x ?R \<le> k" "k < r_x2 ?R" and yr: "r_y ?R \<le> py" "py < r_y2 ?R"
    by (simp_all add: contains_def)
  from cutsin[rule_format, of "nat py"] yr py have x2in: "r_x2 ?R \<in> set (K ! nat py)" by simp
  show gt: "k < ?n" using next_cut_gt[OF x2in xr(2)] .
  show le: "?n \<le> r_x2 ?R" using next_cut_le[OF x2in xr(2)] .
  have "nat (py - r_y ?reg) < length (get_lines (env (fst e)))"
    using len yr g(3,4) by (auto simp: r_y2_def)
  then have "get_lines (env (fst e)) ! nat (py - r_y ?reg) \<in> set (get_lines (env (fst e)))" by simp
  with wid have full: "int (length ?C) = r_width ?reg" by blast
  have kx: "r_x ?reg \<le> k" using g(1) xr(1) by simp
  have nx: "?n - r_x ?reg \<le> r_width ?reg" using le g(2) by (simp add: r_x2_def)
  have room: "nat (k - r_x ?reg) + nat (?n - k) \<le> length ?C" using kx nx gt full by linarith
  show "length (entry_cells env e py k ?n) = nat (?n - k)"
    using room by (simp add: entry_cells_def)
  fix px assume px: "k \<le> px" "px < ?n"
  have "entry_cells env e py k ?n ! nat (px - k) = drop (nat (k - r_x ?reg)) ?C ! nat (px - k)"
    using px by (simp add: entry_cells_def)
  also have "\<dots> = ?C ! (nat (k - r_x ?reg) + nat (px - k))"
    using room px by (intro nth_drop) linarith
  also have "nat (k - r_x ?reg) + nat (px - k) = nat (px - r_x ?reg)" using kx px by linarith
  finally show "entry_cells env e py k ?n ! nat (px - k) = ?C ! nat (px - r_x ?reg)" .
qed

lemma next_cut_Cons_same:
  assumes "sorted_wrt (<) (a # b # rest)"
  shows "next_cut (a # b # rest) a = b"
  unfolding next_cut_def
  by (rule Min_eqI) (use assms in auto)

lemma next_cut_Cons_other:
  assumes "a < c"
  shows "next_cut (a # rest) c = next_cut rest c"
proof -
  have "{x \<in> set (a # rest). c < x} = {x \<in> set rest. c < x}" using assms by auto
  then show ?thesis by (simp add: next_cut_def)
qed

lemma telescope:
  assumes "sorted_wrt (<) (K1 @ k # K2)"
    and "\<forall>c \<in> set K1. int (length (g c)) = next_cut (K1 @ k # K2) c - c"
  shows "int (length (concat (map g K1))) = k - hd (K1 @ [k])"
  using assms
proof (induction K1)
  case Nil
  then show ?case by simp
next
  case (Cons a K1)
  from Cons.prems(1) have s: "sorted_wrt (<) (K1 @ k # K2)" by simp
  have nx: "next_cut (a # K1 @ k # K2) a = hd (K1 @ [k])"
  proof (cases K1)
    case Nil
    with next_cut_Cons_same[of a k K2] Cons.prems(1) show ?thesis by simp
  next
    case (Cons b K1')
    with next_cut_Cons_same[of a b "K1' @ k # K2"] Cons.prems(1) show ?thesis by simp
  qed
  have rest: "\<forall>c \<in> set K1. int (length (g c)) = next_cut (K1 @ k # K2) c - c"
  proof
    fix c assume c: "c \<in> set K1"
    with Cons.prems(1) have "a < c" by auto
    from next_cut_Cons_other[OF this, of "K1 @ k # K2"] Cons.prems(2) c
    show "int (length (g c)) = next_cut (K1 @ k # K2) c - c" by simp
  qed
  from Cons.IH[OF s rest] have ih: "int (length (concat (map g K1))) = k - hd (K1 @ [k])" .
  from Cons.prems(2) nx have "int (length (g a)) = hd (K1 @ [k]) - a" by simp
  with ih show ?case by simp
qed

lemma sorted_reverse_find_max:
  assumes f: "find P (sorted_reverse key xs) = Some e" and a: "a \<in> set xs" "P a"
  shows "key a \<le> key e"
proof -
  let ?L = "sorted_reverse key xs"
  from f obtain i where i: "i < length ?L" "?L ! i = e" "P e" "\<forall>j < i. \<not> P (?L ! j)"
    by (auto simp: find_Some_iff)
  from a(1) have "a \<in> set ?L" by simp
  then obtain j where j: "j < length ?L" "?L ! j = a" unfolding in_set_conv_nth by blast
  with i(4) a(2) have ij: "i \<le> j" by (meson not_le_imp_less)
  have srt: "sorted (map key (rev ?L))"
    by (simp add: sorted_reverse_def)
  let ?n = "length ?L"
  have ra: "rev ?L ! (?n - 1 - j) = a" using j by (simp add: rev_nth)
  have re: "rev ?L ! (?n - 1 - i) = e" using i by (simp add: rev_nth)
  have "map key (rev ?L) ! (?n - 1 - j) \<le> map key (rev ?L) ! (?n - 1 - i)"
    using srt ij i(1) j(1) by (intro sorted_nth_mono) auto
  with ra re i(1) j(1) show ?thesis by simp
qed

lemma find_covering_entry:
  assumes "find (\<lambda>e. entry_covers env e k py) (widget_regions env c) = Some e"
  shows "\<exists>item \<in> set (map_c c). e = entry_of item \<and> covers env item k py"
proof -
  from assms have "e \<in> set (widget_regions env c)" "entry_covers env e k py"
    by (auto simp: find_Some_iff)
  then obtain item where item: "item \<in> set (map_c c)" "visible (env (fst item))"
    "e = entry_of item" by (auto simp: set_widget_regions)
  from \<open>entry_covers env e k py\<close> have "covers env item k py"
    using entry_covers_of[of env item k py] item(2,3) by simp
  with item(1,3) show ?thesis by blast
qed

lemma covering_entry_found:
  assumes "item \<in> set (map_c c)" and "covers env item k py"
  shows "entry_of item \<in> set (widget_regions env c)"
    and "entry_covers env (entry_of item) k py"
    and "find (\<lambda>e. entry_covers env e k py) (widget_regions env c) \<noteq> None"
proof -
  from assms(2) have v: "visible (env (fst item))" by (simp add: covers_def drawn_def)
  with assms(1) show m: "entry_of item \<in> set (widget_regions env c)"
    by (auto simp: set_widget_regions)
  show e: "entry_covers env (entry_of item) k py"
    using entry_covers_of[of env item k py] v assms(2) by simp
  show "find (\<lambda>e. entry_covers env e k py) (widget_regions env c) \<noteq> None"
  proof
    assume "find (\<lambda>e. entry_covers env e k py) (widget_regions env c) = None"
    then have "\<not> (\<exists>x. x \<in> set (widget_regions env c) \<and> entry_covers env x k py)"
      unfolding find_None_iff .
    with m e show False by blast
  qed
qed

lemma covers_in_screen:
  assumes wa: "well_arranged env c" and item: "item \<in> set (map_c c)"
    and cov: "covers env item px py"
  shows "0 \<le> px" "px < s_width (size_c c)" "0 \<le> py" "py < s_height (size_c c)"
    "nat py < length (cuts c)"
proof -
  from cov have dr: "drawn env item" and con: "contains (clipped (snd item)) px py"
    by (simp_all add: covers_def)
  from con have ne: "region_bool (clipped (snd item))"
    using empty_region_covers_nothing by blast
  with wa item dr have "contains_region (region_of_size (size_c c)) (clipped (snd item))"
    by (simp add: well_arranged_def)
  with con show "0 \<le> px" "px < s_width (size_c c)" "0 \<le> py" "py < s_height (size_c c)"
    by (auto simp: contains_region_def contains_def region_of_size_def r_x2_def r_y2_def)
  then show "nat py < length (cuts c)"
    using well_arranged_cuts(2)[OF wa] by simp
qed

lemma covers_cut_edges:
  assumes wa: "well_arranged env c" and item: "item \<in> set (map_c c)"
    and cov: "covers env item px py"
  shows "r_x (clipped (snd item)) \<in> set (cuts c ! nat py)"
    and "r_x2 (clipped (snd item)) \<in> set (cuts c ! nat py)"
    and "r_x (clipped (snd item)) \<le> px" and "px < r_x2 (clipped (snd item))"
proof -
  note m = covering_entry_found[OF item cov]
  note ok = well_arranged_entry_ok[OF wa m(1)]
  from cov have dr: "drawn env item" and con: "contains (clipped (snd item)) px py"
    by (simp_all add: covers_def)
  from con have ne: "region_bool (clipped (snd item))"
    using empty_region_covers_nothing by blast
  from con have yr: "r_y (clipped (snd item)) \<le> py" "py < r_y2 (clipped (snd item))"
    and xr: "r_x (clipped (snd item)) \<le> px" "px < r_x2 (clipped (snd item))"
    by (simp_all add: contains_def)
  note sc = covers_in_screen[OF wa item cov]
  from dr have nt: "\<not> is_transparent (env (fst (entry_of item)))"
    by (simp add: drawn_def entry_of_def)
  from ok nt ne have "\<forall>i. r_y (clipped (snd item)) \<le> int i \<and> int i < r_y2 (clipped (snd item)) \<longrightarrow>
      r_x (clipped (snd item)) \<in> set (cuts c ! i) \<and> r_x2 (clipped (snd item)) \<in> set (cuts c ! i)"
    by (simp add: entry_ok_def)
  from this[rule_format, of "nat py"] yr sc(3)
  show "r_x (clipped (snd item)) \<in> set (cuts c ! nat py)"
    and "r_x2 (clipped (snd item)) \<in> set (cuts c ! nat py)" by simp_all
  from xr show "r_x (clipped (snd item)) \<le> px" and "px < r_x2 (clipped (snd item))" .
qed

lemma covers_same_interval:
  assumes wa: "well_arranged env c" and item: "item \<in> set (map_c c)"
    and kin: "k \<in> set (cuts c ! nat py)" and kpx: "k \<le> px"
    and nocut: "\<forall>c' \<in> set (cuts c ! nat py). c' \<le> px \<longrightarrow> c' \<le> k"
  shows "covers env item px py \<longleftrightarrow> covers env item k py"
proof
  assume cov: "covers env item px py"
  note e = covers_cut_edges[OF wa item cov]
  from nocut e(1,3) have "r_x (clipped (snd item)) \<le> k" by blast
  with kpx e(4) cov show "covers env item k py"
    by (simp add: covers_def contains_def)
next
  assume cov: "covers env item k py"
  note e = covers_cut_edges[OF wa item cov]
  have "px < r_x2 (clipped (snd item))"
  proof (rule ccontr)
    assume "\<not> px < r_x2 (clipped (snd item))"
    with nocut e(2) have "r_x2 (clipped (snd item)) \<le> k" by auto
    with e(4) show False by simp
  qed
  with kpx e(3) cov show "covers env item px py"
    by (simp add: covers_def contains_def)
qed

lemma bucket_length:
  assumes wa: "well_arranged env c" and item: "item \<in> set (map_c c)"
    and cov: "covers env item k py" and kin: "k \<in> set (cuts c ! nat py)"
  shows "int (length (bucket_cells env (cuts c ! nat py) (widget_regions env c) py k)) =
           next_cut (cuts c ! nat py) k - k"
proof -
  note m = covering_entry_found[OF item cov]
  from m(3) obtain e where e: "find (\<lambda>e. entry_covers env e k py) (widget_regions env c) = Some e"
    by blast
  then have em: "e \<in> set (widget_regions env c)" and ec: "entry_covers env e k py"
    by (auto simp: find_Some_iff)
  note ok = well_arranged_entry_ok[OF wa em]
  note sc = covers_in_screen[OF wa item cov]
  from covered_bucket(1,3)[OF ok ec sc(3) kin] e show ?thesis
    by (simp add: bucket_cells_def)
qed

lemma bucket_empty:
  assumes "\<forall>item \<in> set (map_c c). \<not> covers env item k py"
  shows "bucket_cells env rc (widget_regions env c) py k = []"
proof (cases "find (\<lambda>e. entry_covers env e k py) (widget_regions env c)")
  case None
  then show ?thesis by (simp add: bucket_cells_def)
next
  case (Some e)
  from find_covering_entry[OF Some] assms show ?thesis by blast
qed

lemma bucket_front:
  assumes wa: "well_arranged env c" and a: "a \<in> set (map_c c)" and cov: "covers env a k py"
    and kin: "k \<in> set (cuts c ! nat py)"
    and front: "\<forall>b \<in> set (map_c c). b \<noteq> a \<and> covers env b k py \<longrightarrow>
                  rr_order (snd b) < rr_order (snd a)"
    and px: "k \<le> px" "px < next_cut (cuts c ! nat py) k"
  shows "bucket_cells env (cuts c ! nat py) (widget_regions env c) py k ! nat (px - k)
           = widget_cell env a px py"
proof -
  note m = covering_entry_found[OF a cov]
  from m(3) obtain e where e: "find (\<lambda>e. entry_covers env e k py) (widget_regions env c) = Some e"
    by blast
  from find_covering_entry[OF e] obtain b where b: "b \<in> set (map_c c)" "e = entry_of b"
    "covers env b k py" by blast
  have f1: "find (\<lambda>e. entry_covers env e k py)
            (sorted_reverse (\<lambda>e. fst (snd (snd e)))
               (map entry_of (filter (\<lambda>item. visible (env (fst item))) (map_c c)))) = Some e"
    using e by (simp add: widget_regions_eq)
  have f2: "entry_of a \<in> set (map entry_of (filter (\<lambda>item. visible (env (fst item))) (map_c c)))"
    using m(1) by (simp add: widget_regions_eq)
  have "fst (snd (snd (entry_of a))) \<le> fst (snd (snd e))"
    using sorted_reverse_find_max[of "\<lambda>e. entry_covers env e k py" "\<lambda>e. fst (snd (snd e))"
        "map entry_of (filter (\<lambda>item. visible (env (fst item))) (map_c c))" e "entry_of a",
        OF f1 f2 m(2)] .
  then have le: "rr_order (snd a) \<le> rr_order (snd b)" by (simp add: b(2) entry_of_def)
  have ba: "b = a"
  proof (rule ccontr)
    assume "b \<noteq> a"
    with front b(1,3) have "rr_order (snd b) < rr_order (snd a)" by blast
    with le show False by simp
  qed
  from e have em: "e \<in> set (widget_regions env c)" and ec: "entry_covers env e k py"
    by (auto simp: find_Some_iff)
  note ok = well_arranged_entry_ok[OF wa em]
  note sc = covers_in_screen[OF wa a cov]
  from covered_bucket(4)[OF ok ec sc(3) kin px] e show ?thesis
    by (simp add: bucket_cells_def widget_cell_def b(2) ba entry_of_def)
qed

section \<open>The cells of a render\<close>

lemma render_none:
  assumes wa: "well_arranged env c"
  shows "\<exists>out. render_lines env c None = Inr out \<and> length out = nat (s_height (size_c c)) \<and>
           (\<forall>i < nat (s_height (size_c c)). cells (out ! i) = row_cells env c (int i))"
proof -
  from render_fill[OF wa] obtain chops' where
    f: "fill_renders env (cuts c) (map fromkeys (cuts c)) (widget_regions env c) = Inr chops'"
    and inv: "chops_inv env (cuts c) (widget_regions env c) chops'" by blast
  note cc = well_arranged_cuts[OF wa]
  from inv have len: "length chops' = length (cuts c)"
    and rows: "\<forall>i < length (cuts c). row_inv env (cuts c ! i) (widget_regions env c) (int i) (chops' ! i)"
    by (simp_all add: chops_inv_def)
  have ps: "py_slice chops' 0 (s_height (size_c c)) = chops'"
    using len cc(2) by (simp add: py_slice_all)
  have r: "render_lines env c None = Inr (map assemble_bucket chops')"
    using f ps by (simp add: render_lines_def Let_def crop_region_of_def assemble_chops_def r_y2_def)
  have "\<forall>i < nat (s_height (size_c c)). cells (map assemble_bucket chops' ! i) = row_cells env c (int i)"
  proof (intro allI impI)
    fix i assume i: "i < nat (s_height (size_c c))"
    then have il: "i < length (cuts c)" using cc(2) by simp
    from well_arranged_rows_sorted(1)[OF wa il] have d: "distinct (cuts c ! i)"
      by (simp add: strict_sorted_iff)
    from row_inv_assemble[OF rows[rule_format, OF il] d] il len
    show "cells (map assemble_bucket chops' ! i) = row_cells env c (int i)"
      by (simp add: row_cells_def)
  qed
  with r len cc(2) show ?thesis by simp
qed

lemma next_cut_in:
  "c \<in> set ks \<Longrightarrow> k < c \<Longrightarrow> next_cut ks k \<in> set ks"
proof -
  assume a: "c \<in> set ks" "k < c"
  have "Min {c \<in> set ks. k < c} \<in> {c \<in> set ks. k < c}"
    by (rule Min_in) (use a in auto)
  then show ?thesis by (simp add: next_cut_def)
qed

lemma row_cuts_facts:
  assumes wa: "well_arranged env c" and py: "0 \<le> py" "py < s_height (size_c c)"
  shows "sorted_wrt (<) (cuts c ! nat py)" "hd (cuts c ! nat py) = 0"
    "last (cuts c ! nat py) = s_width (size_c c)" "cuts c ! nat py \<noteq> []"
    "\<forall>v \<in> set (cuts c ! nat py). 0 \<le> v \<and> v \<le> s_width (size_c c)"
    "0 \<in> set (cuts c ! nat py)"
proof -
  note cc = well_arranged_cuts[OF wa]
  from py cc(2) have il: "nat py < length (cuts c)" by simp
  note s = well_arranged_rows_sorted[OF wa il]
  show s1: "sorted_wrt (<) (cuts c ! nat py)" and s2: "hd (cuts c ! nat py) = 0"
    and s3: "last (cuts c ! nat py) = s_width (size_c c)" using s by simp_all
  from py have ih: "nat py < nat (s_height (size_c c))" by simp
  from compute_cuts_exact[OF ih] cc(1) have z: "0 \<in> set (cuts c ! nat py)" by simp
  then show ne: "cuts c ! nat py \<noteq> []" by auto
  show z': "0 \<in> set (cuts c ! nat py)" using z .
  have srt: "sorted (cuts c ! nat py)" using s1 by (simp add: strict_sorted_iff)
  show "\<forall>v \<in> set (cuts c ! nat py). 0 \<le> v \<and> v \<le> s_width (size_c c)"
  proof
    fix v assume v: "v \<in> set (cuts c ! nat py)"
    then obtain j where j: "j < length (cuts c ! nat py)" "cuts c ! nat py ! j = v"
      unfolding in_set_conv_nth by blast
    have "cuts c ! nat py ! 0 \<le> cuts c ! nat py ! j"
      using srt j(1) by (intro sorted_nth_mono) simp_all
    moreover have "cuts c ! nat py ! j \<le> cuts c ! nat py ! (length (cuts c ! nat py) - 1)"
      using srt j(1) by (intro sorted_nth_mono) simp_all
    ultimately show "0 \<le> v \<and> v \<le> s_width (size_c c)"
      using s2 s3 ne j(2) by (simp add: hd_conv_nth last_conv_nth)
  qed
qed

lemma row_cells_split:
  assumes wa: "well_arranged env c" and py: "0 \<le> py" "py < s_height (size_c c)"
    and px: "0 \<le> px"
    and cov: "\<forall>x. 0 \<le> x \<and> x \<le> px \<longrightarrow> covered env c x py"
  shows "\<exists>k pre post. k \<in> set (cuts c ! nat py) \<and> k \<le> px \<and> px < next_cut (cuts c ! nat py) k \<and>
          (\<forall>c' \<in> set (cuts c ! nat py). c' \<le> px \<longrightarrow> c' \<le> k) \<and>
          row_cells env c py =
            pre @ bucket_cells env (cuts c ! nat py) (widget_regions env c) py k @ post \<and>
          int (length pre) = k \<and>
          int (length (bucket_cells env (cuts c ! nat py) (widget_regions env c) py k)) =
            next_cut (cuts c ! nat py) k - k"
proof -
  let ?K = "cuts c ! nat py"
  let ?g = "bucket_cells env ?K (widget_regions env c) py"
  note rf = row_cuts_facts[OF wa py]
  let ?S = "{c' \<in> set ?K. c' \<le> px}"
  have fin: "finite ?S" by simp
  have ne: "?S \<noteq> {}" using rf(6) px by auto
  define k where "k = Max ?S"
  have kS: "k \<in> ?S" unfolding k_def using fin ne by (rule Max_in)
  then have kin: "k \<in> set ?K" and kpx: "k \<le> px" by simp_all
  have kmax: "\<forall>c' \<in> set ?K. c' \<le> px \<longrightarrow> c' \<le> k"
  proof (intro ballI impI)
    fix c' assume "c' \<in> set ?K" "c' \<le> px"
    then have "c' \<in> ?S" by simp
    then show "c' \<le> k" unfolding k_def using fin by (intro Max_ge)
  qed
  from kin obtain K1 K2 where sp: "?K = K1 @ k # K2" by (meson split_list)
  have srt: "sorted_wrt (<) (K1 @ k # K2)" using rf(1) sp by simp
  have k0: "0 \<le> k" using rf(5) kin by blast
  have lens: "\<forall>c' \<in> set K1. int (length (?g c')) = next_cut (K1 @ k # K2) c' - c'"
  proof
    fix c' assume c': "c' \<in> set K1"
    with srt have lt: "c' < k" by (auto simp: sorted_wrt_append)
    from c' sp have cin: "c' \<in> set ?K" by simp
    with rf(5) have "0 \<le> c'" by blast
    with lt kpx cov have "covered env c c' py" by simp
    then obtain b where b: "b \<in> set (map_c c)" "covers env b c' py" by (auto simp: covered_def)
    from bucket_length[OF wa b cin] sp
    show "int (length (?g c')) = next_cut (K1 @ k # K2) c' - c'" by simp
  qed
  from telescope[OF srt lens] have tl: "int (length (concat (map ?g K1))) = k - hd (K1 @ [k])" .
  have "hd (K1 @ [k]) = hd ?K" unfolding sp by (cases K1) simp_all
  with tl rf(2) have pre: "int (length (concat (map ?g K1))) = k" by simp
  from cov px have "covered env c px py" by simp
  then obtain b where b: "b \<in> set (map_c c)" "covers env b px py" by (auto simp: covered_def)
  from covers_same_interval[OF wa b(1) kin kpx kmax] b(2) have bk: "covers env b k py" by simp
  note bl = bucket_length[OF wa b(1) bk kin]
  note e = covers_cut_edges[OF wa b]
  from e(4) kpx have kx2: "k < r_x2 (clipped (snd b))" by simp
  have nin: "next_cut ?K k \<in> set ?K" using next_cut_in[OF e(2) kx2] .
  have ngt: "k < next_cut ?K k" using next_cut_gt[OF e(2) kx2] .
  have npx: "px < next_cut ?K k"
  proof (rule ccontr)
    assume "\<not> px < next_cut ?K k"
    then have "next_cut ?K k \<le> px" by simp
    with kmax nin have "next_cut ?K k \<le> k" by blast
    with ngt show False by simp
  qed
  have rc: "row_cells env c py = concat (map ?g K1) @ ?g k @ concat (map ?g K2)"
    unfolding row_cells_def sp by simp
  from kin kpx npx kmax rc pre bl show ?thesis by blast
qed

lemma row_cells_front:
  assumes wa: "well_arranged env c" and py: "0 \<le> py" "py < s_height (size_c c)"
    and px: "0 \<le> px"
    and cov: "\<forall>x. 0 \<le> x \<and> x < px \<longrightarrow> covered env c x py"
    and fr: "frontmost env c a px py"
  shows "nat px < length (row_cells env c py)"
    and "row_cells env c py ! nat px = widget_cell env a px py"
proof -
  let ?K = "cuts c ! nat py"
  let ?g = "bucket_cells env ?K (widget_regions env c) py"
  from fr have a: "a \<in> set (map_c c)" and ca: "covers env a px py"
    and front: "\<forall>b \<in> set (map_c c). b \<noteq> a \<and> covers env b px py \<longrightarrow>
                  rr_order (snd b) < rr_order (snd a)"
    by (simp_all add: frontmost_def)
  have cov': "\<forall>x. 0 \<le> x \<and> x \<le> px \<longrightarrow> covered env c x py"
  proof (intro allI impI)
    fix x assume x: "0 \<le> x \<and> x \<le> px"
    show "covered env c x py"
    proof (cases "x = px")
      case True
      with a ca show ?thesis by (auto simp: covered_def)
    next
      case False
      with x cov show ?thesis by simp
    qed
  qed
  from row_cells_split[OF wa py px cov'] obtain k pre post where
    kin: "k \<in> set ?K" and kpx: "k \<le> px" and npx: "px < next_cut ?K k"
    and kmax: "\<forall>c' \<in> set ?K. c' \<le> px \<longrightarrow> c' \<le> k"
    and rc: "row_cells env c py = pre @ ?g k @ post"
    and lp: "int (length pre) = k"
    and lg: "int (length (?g k)) = next_cut ?K k - k" by blast
  from covers_same_interval[OF wa a kin kpx kmax] ca have ak: "covers env a k py" by simp
  have frk: "\<forall>b \<in> set (map_c c). b \<noteq> a \<and> covers env b k py \<longrightarrow>
                  rr_order (snd b) < rr_order (snd a)"
  proof (intro ballI impI)
    fix b assume b: "b \<in> set (map_c c)" and h: "b \<noteq> a \<and> covers env b k py"
    from covers_same_interval[OF wa b kin kpx kmax] h have "covers env b px py" by simp
    with front b h show "rr_order (snd b) < rr_order (snd a)" by blast
  qed
  from bucket_front[OF wa a ak kin frk kpx npx]
  have cell: "?g k ! nat (px - k) = widget_cell env a px py" .
  have off: "nat (px - k) < length (?g k)" using lg kpx npx by linarith
  have idx: "nat px = length pre + nat (px - k)" using lp kpx by linarith
  show "nat px < length (row_cells env c py)" unfolding rc idx using off by simp
  have "row_cells env c py ! nat px = (?g k @ post) ! nat (px - k)"
    unfolding rc idx by (simp add: nth_append)
  also have "\<dots> = ?g k ! nat (px - k)" using off by (simp add: nth_append)
  finally show "row_cells env c py ! nat px = widget_cell env a px py" using cell by simp
qed

lemma row_cells_at_least:
  assumes wa: "well_arranged env c" and py: "0 \<le> py" "py < s_height (size_c c)"
    and cov: "\<forall>x. 0 \<le> x \<and> x < n \<longrightarrow> covered env c x py"
  shows "n \<le> int (length (row_cells env c py))"
proof (cases "0 < n")
  case False
  then show ?thesis by simp
next
  case True
  then have px: "0 \<le> n - 1" by simp
  have cov': "\<forall>x. 0 \<le> x \<and> x \<le> n - 1 \<longrightarrow> covered env c x py" using cov by simp
  from row_cells_split[OF wa py px cov'] obtain k pre post where
    npx: "n - 1 < next_cut (cuts c ! nat py) k"
    and rc: "row_cells env c py =
               pre @ bucket_cells env (cuts c ! nat py) (widget_regions env c) py k @ post"
    and lp: "int (length pre) = k"
    and lg: "int (length (bucket_cells env (cuts c ! nat py) (widget_regions env c) py k)) =
               next_cut (cuts c ! nat py) k - k" by blast
  have "int (length (row_cells env c py)) \<ge>
          int (length pre) + int (length (bucket_cells env (cuts c ! nat py) (widget_regions env c) py k))"
    unfolding rc by simp
  with lp lg npx show ?thesis by linarith
qed

lemma row_cells_full:
  assumes wa: "well_arranged env c" and py: "0 \<le> py" "py < s_height (size_c c)"
    and cov: "\<forall>x. 0 \<le> x \<and> x < s_width (size_c c) \<longrightarrow> covered env c x py"
  shows "int (length (row_cells env c py)) = s_width (size_c c)"
proof -
  let ?K = "cuts c ! nat py"
  let ?W = "s_width (size_c c)"
  let ?g = "bucket_cells env ?K (widget_regions env c) py"
  note rf = row_cuts_facts[OF wa py]
  have sp: "?K = butlast ?K @ ?W # []" using rf(3,4) by (metis append_butlast_last_id)
  have srt: "sorted_wrt (<) (butlast ?K @ ?W # [])" using rf(1) sp by simp
  have lens: "\<forall>c' \<in> set (butlast ?K). int (length (?g c')) = next_cut (butlast ?K @ ?W # []) c' - c'"
  proof
    fix c' assume c': "c' \<in> set (butlast ?K)"
    with srt have lt: "c' < ?W" by (auto simp: sorted_wrt_append)
    from c' have cin: "c' \<in> set ?K" by (rule in_set_butlastD)
    with rf(5) have "0 \<le> c'" by blast
    with lt cov have "covered env c c' py" by simp
    then obtain b where b: "b \<in> set (map_c c)" "covers env b c' py" by (auto simp: covered_def)
    from bucket_length[OF wa b cin] sp
    show "int (length (?g c')) = next_cut (butlast ?K @ ?W # []) c' - c'" by simp
  qed
  from telescope[OF srt lens]
  have tl: "int (length (concat (map ?g (butlast ?K)))) = ?W - hd (butlast ?K @ [?W])" .
  have "hd (butlast ?K @ [?W]) = hd ?K" using sp by simp
  with tl rf(2) have pre: "int (length (concat (map ?g (butlast ?K)))) = ?W" by simp
  have "\<forall>item \<in> set (map_c c). \<not> covers env item ?W py"
  proof
    fix item assume item: "item \<in> set (map_c c)"
    show "\<not> covers env item ?W py"
    proof
      assume "covers env item ?W py"
      from covers_in_screen(2)[OF wa item this] show False by simp
    qed
  qed
  from bucket_empty[OF this] have gw: "?g ?W = []" .
  have "row_cells env c py = concat (map ?g (butlast ?K @ ?W # []))"
    unfolding row_cells_def using sp by simp
  also have "\<dots> = concat (map ?g (butlast ?K))" using gw by simp
  finally show ?thesis using pre by simp
qed

lemma width_view_total: "\<exists>v. width_view x x2 ln = Inr v"
proof (cases "ln = []")
  case True
  then show ?thesis by (simp add: width_view_def)
next
  case False
  define d where "d = segment_divide ln [x, x2]"
  have "d \<noteq> []" unfolding d_def by (rule divide_two_nonempty)
  then obtain a rest where d: "d = a # rest" by (cases d) auto
  show ?thesis
  proof (cases rest)
    case Nil
    with d False show ?thesis unfolding width_view_def d_def[symmetric] by simp
  next
    case (Cons b rest')
    with d False show ?thesis unfolding width_view_def d_def[symmetric] by simp
  qed
qed

lemma width_view_cells:
  assumes "0 \<le> x" "x < x2" "x2 \<le> int (length (cells ln))"
  shows "\<exists>v. width_view x x2 ln = Inr v \<and>
             cells v = take (nat (x2 - x)) (drop (nat x) (cells ln))"
proof -
  from assms have ne: "ln \<noteq> []" by auto
  define d where "d = segment_divide ln [x, x2]"
  have "map cells d = chop (cells ln) 0 [x, x2]"
    unfolding d_def using assms by (intro segment_divide_cells) auto
  then have m: "map cells d =
        [take (nat x) (cells ln), take (nat (x2 - x)) (drop (nat x) (cells ln))]"
    by simp
  then obtain a b where ab: "d = [a, b]" by auto
  with m have "cells b = take (nat (x2 - x)) (drop (nat x) (cells ln))" by simp
  with ab ne show ?thesis unfolding width_view_def d_def[symmetric] by simp
qed

lemma py_slice_rows:
  assumes "0 \<le> a" "a \<le> b" "b \<le> int (length xs)"
  shows "length (py_slice xs a b) = nat (b - a)"
    and "j < nat (b - a) \<Longrightarrow> py_slice xs a b ! j = xs ! (nat a + j)"
proof -
  have ia: "py_index (length xs) a = nat a" using assms by (simp add: py_index_def)
  have ib: "py_index (length xs) b = nat b" using assms by (simp add: py_index_def)
  have d: "nat b - nat a = nat (b - a)" using assms by linarith
  show "length (py_slice xs a b) = nat (b - a)"
    using assms by (simp add: py_slice_def Let_def ia ib d)
  assume "j < nat (b - a)"
  then show "py_slice xs a b ! j = xs ! (nat a + j)"
    using assms by (simp add: py_slice_def Let_def ia ib d)
qed

lemma render_crop:
  assumes wa: "well_arranged env c"
    and u: "0 < r_width u" "0 < r_height u" "contains_region (region_of_size (size_c c)) u"
  shows "\<exists>out. render_lines env c (Some u) = Inr out \<and> length out = nat (r_height u) \<and>
           (\<forall>j < nat (r_height u).
               (\<forall>x. 0 \<le> x \<and> x < r_x2 u \<longrightarrow> covered env c x (r_y u + int j)) \<longrightarrow>
               cells (out ! j) =
                 take (nat (r_width u)) (drop (nat (r_x u)) (row_cells env c (r_y u + int j))))"
proof -
  let ?W = "s_width (size_c c)" and ?H = "s_height (size_c c)"
  from render_fill[OF wa] obtain chops' where
    f: "fill_renders env (cuts c) (map fromkeys (cuts c)) (widget_regions env c) = Inr chops'"
    and inv: "chops_inv env (cuts c) (widget_regions env c) chops'" by blast
  note cc = well_arranged_cuts[OF wa]
  from inv have len: "length chops' = length (cuts c)"
    and rows: "\<forall>i < length (cuts c). row_inv env (cuts c ! i) (widget_regions env c) (int i) (chops' ! i)"
    by (simp_all add: chops_inv_def)
  have rb: "region_bool u" using u(1,2) by (simp add: region_bool_def)
  have scr: "Region 0 0 ?W ?H = region_of_size (size_c c)" by (simp add: region_of_size_def)
  have cr: "crop_region_of c (Some u) = u"
    using rb inter_contained[OF u(1,2) u(3)] by (simp add: crop_region_of_def scr)
  from u(3) have g: "0 \<le> r_x u" "r_x2 u \<le> ?W" "0 \<le> r_y u" "r_y2 u \<le> ?H"
    by (simp_all add: contains_region_def region_of_size_def r_x2_def r_y2_def)
  have yy: "r_y u \<le> r_y2 u" using u(2) by (simp add: r_y2_def)
  have hl: "r_y2 u \<le> int (length chops')" using g(4) len cc(2) by simp
  let ?rows = "py_slice chops' (r_y u) (r_y2 u)"
  let ?lines = "map assemble_bucket ?rows"
  have h: "r_y2 u - r_y u = r_height u" by (simp add: r_y2_def)
  have lr: "length ?rows = nat (r_height u)"
    using py_slice_rows(1)[OF g(3) yy hl] h by simp
  have nr: "\<And>j. j < nat (r_height u) \<Longrightarrow> ?rows ! j = chops' ! (nat (r_y u) + j)"
    using py_slice_rows(2)[OF g(3) yy hl] h by simp
  have lc: "\<And>j. j < nat (r_height u) \<Longrightarrow> cells (?lines ! j) = row_cells env c (r_y u + int j)"
  proof -
    fix j assume j: "j < nat (r_height u)"
    let ?i = "nat (r_y u) + j"
    have il: "?i < length (cuts c)" using j g(3,4) cc(2) h by linarith
    from well_arranged_rows_sorted(1)[OF wa il] have d: "distinct (cuts c ! ?i)"
      by (simp add: strict_sorted_iff)
    have ii: "int ?i = r_y u + int j" using g(3) by simp
    have ni: "nat (r_y u + int j) = ?i" using g(3) by linarith
    from row_inv_assemble[OF rows[rule_format, OF il] d]
    have "cells (assemble_bucket (chops' ! ?i)) = row_cells env c (r_y u + int j)"
      unfolding row_cells_def ii ni .
    then show "cells (?lines ! j) = row_cells env c (r_y u + int j)"
      using j lr nr[OF j] by simp
  qed
  have w: "r_x2 u - r_x u = r_width u" by (simp add: r_x2_def)
  show ?thesis
  proof (cases "(r_x u, r_x2 u) \<noteq> (0, ?W)")
    case True
    have r: "render_lines env c (Some u) = collect (map (width_view (r_x u) (r_x2 u)) ?lines)"
      using f True by (simp add: render_lines_def Let_def cr assemble_chops_def)
    have "\<forall>ln \<in> set ?lines. \<exists>v. width_view (r_x u) (r_x2 u) ln = Inr v"
      using width_view_total by blast
    from collect_all[OF this] obtain out where
      o: "collect (map (width_view (r_x u) (r_x2 u)) ?lines) = Inr out"
      and lo: "length out = length ?lines"
      and each: "\<forall>j < length ?lines. width_view (r_x u) (r_x2 u) (?lines ! j) = Inr (out ! j)"
      by blast
    have "\<forall>j < nat (r_height u).
               (\<forall>x. 0 \<le> x \<and> x < r_x2 u \<longrightarrow> covered env c x (r_y u + int j)) \<longrightarrow>
               cells (out ! j) =
                 take (nat (r_width u)) (drop (nat (r_x u)) (row_cells env c (r_y u + int j)))"
    proof (intro allI impI)
      fix j assume j: "j < nat (r_height u)"
        and cov: "\<forall>x. 0 \<le> x \<and> x < r_x2 u \<longrightarrow> covered env c x (r_y u + int j)"
      have py: "0 \<le> r_y u + int j" "r_y u + int j < ?H" using j g(3,4) h by linarith+
      from row_cells_at_least[OF wa py cov] lc[OF j]
      have le: "r_x2 u \<le> int (length (cells (?lines ! j)))" by simp
      have xx: "r_x u < r_x2 u" using u(1) by (simp add: r_x2_def)
      from width_view_cells[OF g(1) xx le] obtain v where
        v: "width_view (r_x u) (r_x2 u) (?lines ! j) = Inr v"
        "cells v = take (nat (r_x2 u - r_x u)) (drop (nat (r_x u)) (cells (?lines ! j)))" by blast
      from each j lr have "width_view (r_x u) (r_x2 u) (?lines ! j) = Inr (out ! j)" by simp
      with v(1) have "out ! j = v" by simp
      with v(2) lc[OF j] w
      show "cells (out ! j) =
                 take (nat (r_width u)) (drop (nat (r_x u)) (row_cells env c (r_y u + int j)))"
        by simp
    qed
    with r o lo lr show ?thesis by simp
  next
    case False
    then have x0: "r_x u = 0" and xw: "r_x2 u = ?W" by simp_all
    have r: "render_lines env c (Some u) = Inr ?lines"
      using f False by (simp add: render_lines_def Let_def cr assemble_chops_def)
    have "\<forall>j < nat (r_height u).
               (\<forall>x. 0 \<le> x \<and> x < r_x2 u \<longrightarrow> covered env c x (r_y u + int j)) \<longrightarrow>
               cells (?lines ! j) =
                 take (nat (r_width u)) (drop (nat (r_x u)) (row_cells env c (r_y u + int j)))"
    proof (intro allI impI)
      fix j assume j: "j < nat (r_height u)"
        and cov: "\<forall>x. 0 \<le> x \<and> x < r_x2 u \<longrightarrow> covered env c x (r_y u + int j)"
      have py: "0 \<le> r_y u + int j" "r_y u + int j < ?H" using j g(3,4) h by linarith+
      from cov xw have cov': "\<forall>x. 0 \<le> x \<and> x < ?W \<longrightarrow> covered env c x (r_y u + int j)" by simp
      from row_cells_full[OF wa py cov']
      have "int (length (row_cells env c (r_y u + int j))) = ?W" .
      moreover have "r_width u = ?W" using w x0 xw by simp
      ultimately show "cells (?lines ! j) =
                 take (nat (r_width u)) (drop (nat (r_x u)) (row_cells env c (r_y u + int j)))"
        using lc[OF j] x0 by simp
    qed
    with r lr show ?thesis by simp
  qed
qed

lemma clear_cache_fields:
  "visible (clear_render_cache env w x) = visible (env x)"
  "is_transparent (clear_render_cache env w x) = is_transparent (env x)"
  "get_lines (clear_render_cache env w x) = get_lines (env x)"
  by (simp_all add: clear_render_cache_def)

lemma clear_cache_covers: "covers (clear_render_cache env w) item px py = covers env item px py"
  by (simp add: covers_def drawn_def clear_cache_fields)

lemma clear_cache_covered: "covered (clear_render_cache env w) c px py = covered env c px py"
  by (simp add: covered_def clear_cache_covers)

lemma clear_cache_frontmost:
  "frontmost (clear_render_cache env w) c a px py = frontmost env c a px py"
  by (simp add: frontmost_def clear_cache_covers)

lemma clear_cache_widget_cell:
  "widget_cell (clear_render_cache env w) item px py = widget_cell env item px py"
  by (simp add: widget_cell_def clear_cache_fields)

lemma clear_cache_well_arranged:
  "well_arranged (clear_render_cache env w) c = well_arranged env c"
  by (simp add: well_arranged_def drawn_def clear_cache_fields)

lemma length_cells: "int (length (cells ln)) = sum_list (map cell_length ln)"
  by (induction ln) (simp_all add: cells_Cons cell_length_def)

lemma render_crop_cells:
  assumes wa: "well_arranged env c"
    and u: "0 < r_width u" "0 < r_height u" "contains_region (region_of_size (size_c c)) u"
  shows "\<exists>out full. render_lines env c (Some u) = Inr out \<and> render_lines env c None = Inr full \<and>
           length out = nat (r_height u) \<and>
           (\<forall>j < nat (r_height u).
               (\<forall>x. 0 \<le> x \<and> x < r_x2 u \<longrightarrow> covered env c x (r_y u + int j)) \<longrightarrow>
               cells (out ! j) =
                 take (nat (r_width u)) (drop (nat (r_x u)) (cells (full ! (nat (r_y u) + j)))) \<and>
               int (length (cells (out ! j))) = r_width u \<and>
               (\<forall>i < nat (r_width u). \<forall>a.
                   frontmost env c a (r_x u + int i) (r_y u + int j) \<longrightarrow>
                   cells (out ! j) ! i = widget_cell env a (r_x u + int i) (r_y u + int j)))"
proof -
  let ?H = "s_height (size_c c)"
  from render_crop[OF wa u] obtain out where
    o: "render_lines env c (Some u) = Inr out" and lo: "length out = nat (r_height u)"
    and oc: "\<forall>j < nat (r_height u).
               (\<forall>x. 0 \<le> x \<and> x < r_x2 u \<longrightarrow> covered env c x (r_y u + int j)) \<longrightarrow>
               cells (out ! j) =
                 take (nat (r_width u)) (drop (nat (r_x u)) (row_cells env c (r_y u + int j)))"
    by blast
  from render_none[OF wa] obtain full where
    fl: "render_lines env c None = Inr full" and lf: "length full = nat ?H"
    and fc: "\<forall>i < nat ?H. cells (full ! i) = row_cells env c (int i)" by blast
  from u(3) have g: "0 \<le> r_x u" "0 \<le> r_y u" "r_y2 u \<le> ?H"
    by (simp_all add: contains_region_def region_of_size_def r_x2_def r_y2_def)
  have w: "r_x2 u = r_x u + r_width u" by (simp add: r_x2_def)
  have h: "r_y2 u = r_y u + r_height u" by (simp add: r_y2_def)
  have "\<forall>j < nat (r_height u).
               (\<forall>x. 0 \<le> x \<and> x < r_x2 u \<longrightarrow> covered env c x (r_y u + int j)) \<longrightarrow>
               cells (out ! j) =
                 take (nat (r_width u)) (drop (nat (r_x u)) (cells (full ! (nat (r_y u) + j)))) \<and>
               int (length (cells (out ! j))) = r_width u \<and>
               (\<forall>i < nat (r_width u). \<forall>a.
                   frontmost env c a (r_x u + int i) (r_y u + int j) \<longrightarrow>
                   cells (out ! j) ! i = widget_cell env a (r_x u + int i) (r_y u + int j))"
  proof (intro allI impI)
    fix j assume j: "j < nat (r_height u)"
      and cov: "\<forall>x. 0 \<le> x \<and> x < r_x2 u \<longrightarrow> covered env c x (r_y u + int j)"
    let ?py = "r_y u + int j"
    let ?row = "row_cells env c ?py"
    have py: "0 \<le> ?py" "?py < ?H" using j g h by linarith+
    have ih: "nat (r_y u) + j < nat ?H" using j g h by linarith
    have ii: "int (nat (r_y u) + j) = ?py" using g(2) by simp
    from fc[rule_format, OF ih] ii have fr: "cells (full ! (nat (r_y u) + j)) = ?row" by simp
    from oc j cov have c1: "cells (out ! j) =
        take (nat (r_width u)) (drop (nat (r_x u)) ?row)" by blast
    from row_cells_at_least[OF wa py cov] have le: "r_x2 u \<le> int (length ?row)" .
    have c2: "int (length (cells (out ! j))) = r_width u"
      unfolding c1 using le w g(1) u(1) by simp
    have c3: "\<forall>i < nat (r_width u). \<forall>a.
                   frontmost env c a (r_x u + int i) ?py \<longrightarrow>
                   cells (out ! j) ! i = widget_cell env a (r_x u + int i) ?py"
    proof (intro allI impI)
      fix i a assume i: "i < nat (r_width u)" and fa: "frontmost env c a (r_x u + int i) ?py"
      let ?px = "r_x u + int i"
      have px: "0 \<le> ?px" using g(1) by simp
      have pl: "?px < r_x2 u" using i w by linarith
      have cov': "\<forall>x. 0 \<le> x \<and> x < ?px \<longrightarrow> covered env c x ?py"
        using cov pl by simp
      note rf = row_cells_front[OF wa py px cov' fa]
      have np: "nat ?px = nat (r_x u) + i" using g(1) by linarith
      have "cells (out ! j) ! i = drop (nat (r_x u)) ?row ! i"
        unfolding c1 using i by simp
      also have "\<dots> = ?row ! (nat (r_x u) + i)"
        using rf(1) np by (intro nth_drop) simp
      finally show "cells (out ! j) ! i = widget_cell env a ?px ?py"
        using rf(2) np by simp
    qed
    from c1 c2 c3 fr
    show "cells (out ! j) =
                 take (nat (r_width u)) (drop (nat (r_x u)) (cells (full ! (nat (r_y u) + j)))) \<and>
               int (length (cells (out ! j))) = r_width u \<and>
               (\<forall>i < nat (r_width u). \<forall>a.
                   frontmost env c a (r_x u + int i) ?py \<longrightarrow>
                   cells (out ! j) ! i = widget_cell env a (r_x u + int i) ?py)"
      by simp
  qed
  with o fl lo show ?thesis by blast
qed

lemma render_none_cells:
  assumes wa: "well_arranged env c"
  shows "\<exists>out. render_lines env c None = Inr out \<and> length out = nat (s_height (size_c c)) \<and>
           (\<forall>i < nat (s_height (size_c c)).
              ((\<forall>x. 0 \<le> x \<and> x < s_width (size_c c) \<longrightarrow> covered env c x (int i)) \<longrightarrow>
                 int (length (cells (out ! i))) = s_width (size_c c)) \<and>
              (\<forall>px a. 0 \<le> px \<and> frontmost env c a px (int i) \<and>
                    (\<forall>x. 0 \<le> x \<and> x < px \<longrightarrow> covered env c x (int i)) \<longrightarrow>
                 nat px < length (cells (out ! i)) \<and>
                 cells (out ! i) ! nat px = widget_cell env a px (int i)))"
proof -
  let ?H = "s_height (size_c c)"
  from render_none[OF wa] obtain full where
    fl: "render_lines env c None = Inr full" and lf: "length full = nat ?H"
    and fc: "\<forall>i < nat ?H. cells (full ! i) = row_cells env c (int i)" by blast
  have "\<forall>i < nat ?H.
              ((\<forall>x. 0 \<le> x \<and> x < s_width (size_c c) \<longrightarrow> covered env c x (int i)) \<longrightarrow>
                 int (length (cells (full ! i))) = s_width (size_c c)) \<and>
              (\<forall>px a. 0 \<le> px \<and> frontmost env c a px (int i) \<and>
                    (\<forall>x. 0 \<le> x \<and> x < px \<longrightarrow> covered env c x (int i)) \<longrightarrow>
                 nat px < length (cells (full ! i)) \<and>
                 cells (full ! i) ! nat px = widget_cell env a px (int i))"
  proof (intro allI impI conjI)
    fix i assume i: "i < nat ?H"
    have py: "0 \<le> int i" "int i < ?H" using i by linarith+
    {
      assume cov: "\<forall>x. 0 \<le> x \<and> x < s_width (size_c c) \<longrightarrow> covered env c x (int i)"
      from row_cells_full[OF wa py cov] fc[rule_format, OF i]
      show "int (length (cells (full ! i))) = s_width (size_c c)" by simp
    }
    {
      fix px a
      assume a: "0 \<le> px \<and> frontmost env c a px (int i) \<and>
                    (\<forall>x. 0 \<le> x \<and> x < px \<longrightarrow> covered env c x (int i))"
      then have px: "0 \<le> px" and fa: "frontmost env c a px (int i)"
        and cov: "\<forall>x. 0 \<le> x \<and> x < px \<longrightarrow> covered env c x (int i)" by simp_all
      note rf = row_cells_front[OF wa py px cov fa]
      from rf(1) fc[rule_format, OF i] show "nat px < length (cells (full ! i))" by simp
      from rf(2) fc[rule_format, OF i]
      show "cells (full ! i) ! nat px = widget_cell env a px (int i)" by simp
    }
  qed
  with fl lf show ?thesis by blast
qed

section \<open>What a render shows\<close>

lemma wa_occ: "well_arranged env_occ c_occ"
  by code_simp

lemma covered_occ:
  assumes "0 \<le> x" "x < 4"
  shows "covered env_occ c_occ x 0"
proof -
  let ?b = "(1::nat, RenderRegion (Region 0 0 4 1) [0] (Region 0 0 4 1) (Size 4 1))"
  have m: "?b \<in> set (map_c c_occ)" by (simp add: c_occ_def)
  have d: "drawn env_occ ?b" by code_simp
  have cl: "clipped (snd ?b) = Region 0 0 4 1" by code_simp
  have "covers env_occ ?b x 0"
    unfolding covers_def cl using d assms by (simp add: contains_def r_x2_def r_y2_def)
  with m show ?thesis unfolding covered_def by blast
qed

lemma front_occ:
  "frontmost env_occ c_occ (2, RenderRegion (Region 1 0 2 1) [1] (Region 0 0 4 1) (Size 2 1)) 1 0"
  by code_simp

lemma render_occ:
  "fst (render env_occ c_occ None) =
     Inr [[Segment ''A'' (Some (Style 1)), Segment ''BB'' (Some (Style 2)),
           Segment ''A'' (Some (Style 1))]]"
  by code_simp

text \<open>
  C1, as the code has it. In a well-formed arrangement, let a drawn widget cover the cell
  \<open>(px, py)\<close> and have a greater order than every other drawn widget covering that cell, and
  let every cell to the left of it on its row be covered by some drawn widget. Then the render
  succeeds and the cell at column \<open>px\<close> of its row \<open>py\<close> is the cell of that widget: no
  widget of smaller order shows through.
\<close>

theorem render_shows_frontmost:
  assumes "well_arranged env c" and "frontmost env c a px py"
    and "\<forall>x. 0 \<le> x \<and> x < px \<longrightarrow> covered env c x py"
  shows "\<exists>out. fst (render env c None) = Inr out \<and> nat py < length out \<and>
           nat px < length (cells (out ! nat py)) \<and>
           cells (out ! nat py) ! nat px = widget_cell env a px py"
proof -
  from assms(2) have a: "a \<in> set (map_c c)" and ca: "covers env a px py"
    by (simp_all add: frontmost_def)
  note sc = covers_in_screen[OF assms(1) a ca]
  from render_none_cells[OF assms(1)] obtain out where
    o: "render_lines env c None = Inr out" and lo: "length out = nat (s_height (size_c c))"
    and oc: "\<forall>i < nat (s_height (size_c c)).
              ((\<forall>x. 0 \<le> x \<and> x < s_width (size_c c) \<longrightarrow> covered env c x (int i)) \<longrightarrow>
                 int (length (cells (out ! i))) = s_width (size_c c)) \<and>
              (\<forall>px a. 0 \<le> px \<and> frontmost env c a px (int i) \<and>
                    (\<forall>x. 0 \<le> x \<and> x < px \<longrightarrow> covered env c x (int i)) \<longrightarrow>
                 nat px < length (cells (out ! i)) \<and>
                 cells (out ! i) ! nat px = widget_cell env a px (int i))" by blast
  have i: "nat py < nat (s_height (size_c c))" using sc(3,4) by linarith
  have ii: "int (nat py) = py" using sc(3) by simp
  from oc[rule_format, OF i, THEN conjunct2, rule_format, of px a] sc(1) assms(2,3) ii
  have "nat px < length (cells (out ! nat py)) \<and>
        cells (out ! nat py) ! nat px = widget_cell env a px py" by simp
  with o lo i show ?thesis by (simp add: render_def)
qed

theorem render_shows_frontmost_witness:
  "well_arranged env_occ c_occ
   \<and> frontmost env_occ c_occ (2, RenderRegion (Region 1 0 2 1) [1] (Region 0 0 4 1) (Size 2 1)) 1 0
   \<and> fst (render env_occ c_occ None) =
       Inr [[Segment ''A'' (Some (Style 1)), Segment ''BB'' (Some (Style 2)),
             Segment ''A'' (Some (Style 1))]]
   \<and> cells [Segment ''A'' (Some (Style 1)), Segment ''BB'' (Some (Style 2)),
             Segment ''A'' (Some (Style 1))] ! 1 =
       widget_cell env_occ (2, RenderRegion (Region 1 0 2 1) [1] (Region 0 0 4 1) (Size 2 1)) 1 0"
proof -
  have cov: "\<forall>x. 0 \<le> x \<and> x < 1 \<longrightarrow> covered env_occ c_occ x 0"
    using covered_occ by simp
  from render_shows_frontmost[OF wa_occ front_occ cov] obtain out where
    o: "fst (render env_occ c_occ None) = Inr out"
    and c: "cells (out ! nat 0) ! nat 1 =
       widget_cell env_occ (2, RenderRegion (Region 1 0 2 1) [1] (Region 0 0 4 1) (Size 2 1)) 1 0"
    by blast
  from o render_occ have "out = [[Segment ''A'' (Some (Style 1)), Segment ''BB'' (Some (Style 2)),
             Segment ''A'' (Some (Style 1))]]" by simp
  with c wa_occ front_occ render_occ show ?thesis by simp
qed

text \<open>
  C1, as stated, fails when a third widget lies in front: widgets 1 and 2 are drawn and both
  cover the cell \<open>(1, 0)\<close>, widget 1 has the greater order of the two, and the render shows at
  that cell the content of widget 3, not that of widget 1.
\<close>

theorem render_greater_of_two_hidden:
  "reflow 10 env_three init 0 (Size 4 1) =
     (Inr \<lparr>hidden = {}, shown = {0, 1, 2, 3}, resized = {}\<rparr>, c_three)
   \<and> (1, RenderRegion (Region 0 0 4 1) [1] (Region 0 0 4 1) (Size 4 1)) \<in> set (map_c c_three)
   \<and> (2, RenderRegion (Region 0 0 4 1) [0] (Region 0 0 4 1) (Size 4 1)) \<in> set (map_c c_three)
   \<and> visible (env_three 1) \<and> \<not> is_transparent (env_three 1)
   \<and> visible (env_three 2) \<and> \<not> is_transparent (env_three 2)
   \<and> [0::int] < [1]
   \<and> contains (intersection (Region 0 0 4 1) (Region 0 0 4 1)) 1 0
   \<and> fst (render env_three c_three None) =
       Inr [[Segment ''A'' (Some (Style 1)), Segment ''CC'' (Some (Style 3)),
             Segment ''A'' (Some (Style 1))]]
   \<and> cells [Segment ''A'' (Some (Style 1)), Segment ''CC'' (Some (Style 3)),
             Segment ''A'' (Some (Style 1))] ! 1 = (CHR ''C'', Some (Style 3))
   \<and> widget_cell env_three (1, RenderRegion (Region 0 0 4 1) [1] (Region 0 0 4 1) (Size 4 1)) 1 0
       = (CHR ''A'', Some (Style 1))"
  by code_simp




section \<open>The patch of a partial update\<close>

lemma update_widget_unfold:
  assumes "map_of (regions c) w = Some (region, clip)"
    and "region_bool (intersection region clip)"
  shows "update_widget env c w =
     (case render_lines (clear_render_cache env w) c (Some (intersection region clip)) of
        Inl e \<Rightarrow> (Inl e, clear_render_cache env w, c\<lparr>cuts_cache := Some (cuts c)\<rparr>)
      | Inr update_lines \<Rightarrow>
          (Inr (Some (LayoutUpdate update_lines (intersection region clip))),
           clear_render_cache env w, c\<lparr>cuts_cache := Some (cuts c)\<rparr>))"
proof -
  from assms(2) intersection_empty have rb: "region_bool region" by blast
  show ?thesis
    using assms rb by (simp add: update_widget_def Let_def render_def split: sum.splits)
qed

lemma update_widget_none_iff:
  "fst (update_widget env c w) = Inr None \<longleftrightarrow>
     (w \<notin> dict_keys (regions c) \<or>
      (\<exists>region clip. map_of (regions c) w = Some (region, clip) \<and>
                     \<not> region_bool (intersection region clip)))"
proof -
  have keys: "w \<notin> dict_keys (regions c) \<longleftrightarrow> map_of (regions c) w = None"
    by (simp add: dict_keys_def map_of_eq_None_iff)
  show ?thesis
  proof (cases "map_of (regions c) w")
    case None
    then show ?thesis by (simp add: update_widget_def keys)
  next
    case (Some rc)
    obtain region clip where rc: "rc = (region, clip)" by (cases rc)
    show ?thesis
    proof (cases "region_bool (intersection region clip)")
      case False
      with Some rc show ?thesis by (simp add: update_widget_def keys Let_def)
    next
      case True
      from update_widget_unfold[OF Some[unfolded rc] True, of env] Some rc True
      show ?thesis by (simp add: keys split: sum.splits)
    qed
  qed
qed

text \<open>
  C5, as the code has it. \<^verbatim>\<open>update_widget\<close> returns \<^verbatim>\<open>None\<close> exactly when the widget is not
  in \<^verbatim>\<open>regions\<close> or its region intersected with its clip is empty. Otherwise it clears the
  widget's render cache; and when the arrangement is well formed and the intersection has a
  positive size and lies within the screen, it returns a patch positioned at the intersection
  with one line per row of it. On every row whose cells are covered by drawn widgets from
  column 0 up to the right edge of the intersection, the line is the columns of the
  intersection taken from that row of the full render, it is as long as the intersection is
  wide, and each of its cells is the cell of the drawn widget of greatest order covering it:
  a widget in front of the updated one appears in the patch.
\<close>

theorem update_widget_patch:
  "(fst (update_widget env c w) = Inr None \<longleftrightarrow>
      (w \<notin> dict_keys (regions c) \<or>
       (\<exists>region clip. map_of (regions c) w = Some (region, clip) \<and>
                      \<not> region_bool (intersection region clip))))
   \<and> (\<forall>region clip. map_of (regions c) w = Some (region, clip) \<and>
          region_bool (intersection region clip) \<longrightarrow>
        fst (snd (update_widget env c w)) = clear_render_cache env w
        \<and> \<not> render_cache (fst (snd (update_widget env c w)) w)
        \<and> (well_arranged env c \<and> 0 < r_width (intersection region clip) \<and>
           0 < r_height (intersection region clip) \<and>
           contains_region (region_of_size (size_c c)) (intersection region clip) \<longrightarrow>
           (\<exists>lines full.
              fst (update_widget env c w) =
                Inr (Some (LayoutUpdate lines (intersection region clip)))
              \<and> fst (render (clear_render_cache env w) c None) = Inr full
              \<and> length lines = nat (r_height (intersection region clip))
              \<and> (\<forall>j < nat (r_height (intersection region clip)).
                   (\<forall>x. 0 \<le> x \<and> x < r_x2 (intersection region clip) \<longrightarrow>
                        covered env c x (r_y (intersection region clip) + int j)) \<longrightarrow>
                   cells (lines ! j) =
                     take (nat (r_width (intersection region clip)))
                       (drop (nat (r_x (intersection region clip)))
                          (cells (full ! (nat (r_y (intersection region clip)) + j))))
                   \<and> sum_list (map cell_length (lines ! j)) = r_width (intersection region clip)
                   \<and> (\<forall>i < nat (r_width (intersection region clip)). \<forall>a.
                        frontmost env c a (r_x (intersection region clip) + int i)
                          (r_y (intersection region clip) + int j) \<longrightarrow>
                        cells (lines ! j) ! i =
                          widget_cell env a (r_x (intersection region clip) + int i)
                            (r_y (intersection region clip) + int j))))))"
proof (intro conjI allI impI)
  show "fst (update_widget env c w) = Inr None \<longleftrightarrow>
      (w \<notin> dict_keys (regions c) \<or>
       (\<exists>region clip. map_of (regions c) w = Some (region, clip) \<and>
                      \<not> region_bool (intersection region clip)))"
    by (rule update_widget_none_iff)
next
  fix region clip
  assume a: "map_of (regions c) w = Some (region, clip) \<and> region_bool (intersection region clip)"
  then have m: "map_of (regions c) w = Some (region, clip)"
    and rb: "region_bool (intersection region clip)" by simp_all
  note uw = update_widget_unfold[OF m rb, of env]
  show e: "fst (snd (update_widget env c w)) = clear_render_cache env w"
    unfolding uw by (simp split: sum.splits)
  show "\<not> render_cache (fst (snd (update_widget env c w)) w)"
    unfolding e by (simp add: clear_render_cache_def)
next
  fix region clip
  let ?u = "intersection region clip"
  let ?env = "clear_render_cache env w"
  assume a: "map_of (regions c) w = Some (region, clip) \<and> region_bool ?u"
    and b: "well_arranged env c \<and> 0 < r_width ?u \<and> 0 < r_height ?u \<and>
           contains_region (region_of_size (size_c c)) ?u"
  from a have m: "map_of (regions c) w = Some (region, clip)"
    and rb: "region_bool ?u" by simp_all
  from b have wa: "well_arranged ?env c" and u1: "0 < r_width ?u" and u2: "0 < r_height ?u"
    and u3: "contains_region (region_of_size (size_c c)) ?u"
    by (simp_all add: clear_cache_well_arranged)
  note uw = update_widget_unfold[OF m rb, of env]
  from render_crop_cells[OF wa u1 u2 u3] obtain out full where
    o: "render_lines ?env c (Some ?u) = Inr out" and fl: "render_lines ?env c None = Inr full"
    and lo: "length out = nat (r_height ?u)"
    and oc: "\<forall>j < nat (r_height ?u).
               (\<forall>x. 0 \<le> x \<and> x < r_x2 ?u \<longrightarrow> covered ?env c x (r_y ?u + int j)) \<longrightarrow>
               cells (out ! j) =
                 take (nat (r_width ?u)) (drop (nat (r_x ?u)) (cells (full ! (nat (r_y ?u) + j)))) \<and>
               int (length (cells (out ! j))) = r_width ?u \<and>
               (\<forall>i < nat (r_width ?u). \<forall>a.
                   frontmost ?env c a (r_x ?u + int i) (r_y ?u + int j) \<longrightarrow>
                   cells (out ! j) ! i = widget_cell ?env a (r_x ?u + int i) (r_y ?u + int j))"
    by blast
  have r1: "fst (update_widget env c w) = Inr (Some (LayoutUpdate out ?u))"
    unfolding uw o by simp
  have r2: "fst (render ?env c None) = Inr full" using fl by (simp add: render_def)
  have r3: "\<forall>j < nat (r_height ?u).
               (\<forall>x. 0 \<le> x \<and> x < r_x2 ?u \<longrightarrow> covered env c x (r_y ?u + int j)) \<longrightarrow>
               cells (out ! j) =
                 take (nat (r_width ?u)) (drop (nat (r_x ?u)) (cells (full ! (nat (r_y ?u) + j)))) \<and>
               sum_list (map cell_length (out ! j)) = r_width ?u \<and>
               (\<forall>i < nat (r_width ?u). \<forall>a.
                   frontmost env c a (r_x ?u + int i) (r_y ?u + int j) \<longrightarrow>
                   cells (out ! j) ! i = widget_cell env a (r_x ?u + int i) (r_y ?u + int j))"
    using oc unfolding clear_cache_covered clear_cache_frontmost clear_cache_widget_cell
      length_cells .
  from r1 r2 lo r3
  show "\<exists>lines full.
              fst (update_widget env c w) = Inr (Some (LayoutUpdate lines ?u))
              \<and> fst (render ?env c None) = Inr full
              \<and> length lines = nat (r_height ?u)
              \<and> (\<forall>j < nat (r_height ?u).
                   (\<forall>x. 0 \<le> x \<and> x < r_x2 ?u \<longrightarrow> covered env c x (r_y ?u + int j)) \<longrightarrow>
                   cells (lines ! j) =
                     take (nat (r_width ?u))
                       (drop (nat (r_x ?u)) (cells (full ! (nat (r_y ?u) + j))))
                   \<and> sum_list (map cell_length (lines ! j)) = r_width ?u
                   \<and> (\<forall>i < nat (r_width ?u). \<forall>a.
                        frontmost env c a (r_x ?u + int i) (r_y ?u + int j) \<longrightarrow>
                        cells (lines ! j) ! i =
                          widget_cell env a (r_x ?u + int i) (r_y ?u + int j)))"
    by blast
qed

lemma update_occ:
  "fst (update_widget env_occ c_occ 1) =
     Inr (Some (LayoutUpdate [[Segment ''A'' (Some (Style 1)), Segment ''BB'' (Some (Style 2)),
                               Segment ''A'' (Some (Style 1))]] (Region 0 0 4 1)))"
  by code_simp

theorem update_widget_patch_witness:
  "map_of (regions c_occ) 1 = Some (Region 0 0 4 1, Region 0 0 4 1)
   \<and> intersection (Region 0 0 4 1) (Region 0 0 4 1) = Region 0 0 4 1
   \<and> well_arranged env_occ c_occ
   \<and> frontmost env_occ c_occ (2, RenderRegion (Region 1 0 2 1) [1] (Region 0 0 4 1) (Size 2 1)) 1 0
   \<and> fst (update_widget env_occ c_occ 1) =
       Inr (Some (LayoutUpdate [[Segment ''A'' (Some (Style 1)), Segment ''BB'' (Some (Style 2)),
                                 Segment ''A'' (Some (Style 1))]] (Region 0 0 4 1)))
   \<and> cells [Segment ''A'' (Some (Style 1)), Segment ''BB'' (Some (Style 2)),
             Segment ''A'' (Some (Style 1))] ! 1 =
       widget_cell env_occ (2, RenderRegion (Region 1 0 2 1) [1] (Region 0 0 4 1) (Size 2 1)) 1 0
   \<and> \<not> render_cache (fst (snd (update_widget env_occ c_occ 1)) 1)"
proof -
  let ?u = "Region 0 0 4 1"
  let ?it = "(2::nat, RenderRegion (Region 1 0 2 1) [1] (Region 0 0 4 1) (Size 2 1))"
  have m: "map_of (regions c_occ) 1 = Some (?u, ?u)" by code_simp
  have i: "intersection ?u ?u = ?u" by code_simp
  have rb: "region_bool (intersection ?u ?u)" by code_simp
  have g: "0 < r_width (intersection ?u ?u)" "0 < r_height (intersection ?u ?u)"
    "contains_region (region_of_size (size_c c_occ)) (intersection ?u ?u)" by code_simp+
  note t = update_widget_patch[of env_occ c_occ 1, THEN conjunct2, rule_format, of ?u ?u]
  from t m rb have nc: "\<not> render_cache (fst (snd (update_widget env_occ c_occ 1)) 1)" by blast
  from t m rb wa_occ g obtain lines where
    l: "fst (update_widget env_occ c_occ 1) = Inr (Some (LayoutUpdate lines (intersection ?u ?u)))"
    and lc: "\<forall>j < nat (r_height (intersection ?u ?u)).
                   (\<forall>x. 0 \<le> x \<and> x < r_x2 (intersection ?u ?u) \<longrightarrow>
                        covered env_occ c_occ x (r_y (intersection ?u ?u) + int j)) \<longrightarrow>
                   (\<forall>i < nat (r_width (intersection ?u ?u)). \<forall>a.
                        frontmost env_occ c_occ a (r_x (intersection ?u ?u) + int i)
                          (r_y (intersection ?u ?u) + int j) \<longrightarrow>
                        cells (lines ! j) ! i =
                          widget_cell env_occ a (r_x (intersection ?u ?u) + int i)
                            (r_y (intersection ?u ?u) + int j))"
    by blast
  have cov: "\<forall>x. 0 \<le> x \<and> x < r_x2 ?u \<longrightarrow> covered env_occ c_occ x (r_y ?u + int 0)"
    using covered_occ by (simp add: r_x2_def)
  from lc[unfolded i] cov front_occ
  have "cells (lines ! 0) ! 1 = widget_cell env_occ ?it 1 0"
    by (simp add: r_x2_def) 
  moreover from l update_occ have "lines = [[Segment ''A'' (Some (Style 1)),
      Segment ''BB'' (Some (Style 2)), Segment ''A'' (Some (Style 1))]]" by simp
  ultimately show ?thesis using m i wa_occ front_occ update_occ nc by simp
qed

text \<open>
  C5, as stated, fails when cells to the left of the updated widget are not covered. The root
  is transparent, widget 1 lies on columns 2 and 3 and widget 2 in front of it on column 3.
  The full render shows both, and the patch returned for widget 1, positioned at its region,
  has one empty line: neither widget 1 nor the widget in front of it appears in the patch.
\<close>

theorem update_widget_patch_misses_front:
  "reflow 10 env_hole init 0 (Size 4 1) =
     (Inr \<lparr>hidden = {}, shown = {0, 1, 2}, resized = {}\<rparr>, c_hole)
   \<and> map_of (regions c_hole) 1 = Some (Region 2 0 2 1, Region 0 0 4 1)
   \<and> intersection (Region 2 0 2 1) (Region 0 0 4 1) = Region 2 0 2 1
   \<and> (2, RenderRegion (Region 3 0 1 1) [1] (Region 0 0 4 1) (Size 1 1)) \<in> set (map_c c_hole)
   \<and> (1, RenderRegion (Region 2 0 2 1) [0] (Region 0 0 4 1) (Size 2 1)) \<in> set (map_c c_hole)
   \<and> visible (env_hole 2) \<and> \<not> is_transparent (env_hole 2)
   \<and> [0::int] < [1]
   \<and> contains (intersection (Region 3 0 1 1) (Region 0 0 4 1)) 3 0
   \<and> contains (Region 2 0 2 1) 3 0
   \<and> fst (render env_hole c_hole None) =
       Inr [[Segment ''A'' (Some (Style 1)), Segment ''B'' (Some (Style 2))]]
   \<and> fst (update_widget env_hole c_hole 1) = Inr (Some (LayoutUpdate [[]] (Region 2 0 2 1)))"
  by code_simp

section \<open>The widget under a point\<close>

lemma first_containing_find:
  "first_containing
     (map (\<lambda>(w, rr). (w, intersection (rr_region rr) (rr_clip rr), rr_region rr,
                        rr_virtual_size rr)) xs) px py =
   (case find (\<lambda>item. contains (clipped (snd item)) px py) xs of
      None \<Rightarrow> Inl NoWidget
    | Some item \<Rightarrow> Inr (fst item, rr_region (snd item)))"
  by (induction xs) (auto simp: clipped_def)

lemma get_widget_at_find:
  "get_widget_at c px py =
   (case find (\<lambda>item. contains (clipped (snd item)) px py)
           (sorted_reverse (\<lambda>item. rr_order (snd item)) (map_c c)) of
      None \<Rightarrow> Inl NoWidget
    | Some item \<Rightarrow> Inr (fst item, rr_region (snd item)))"
  by (simp add: get_widget_at_def iter_def first_containing_find)

lemma sorted_reverse_descending:
  "sorted (rev (map key (sorted_reverse key xs)))"
  by (simp add: sorted_reverse_def rev_map[symmetric])

lemma find_Some_mem: "find P xs = Some e \<Longrightarrow> e \<in> set xs \<and> P e"
  by (induction xs) (auto split: if_splits)

text \<open>
  C10. For every map and every point, \<^verbatim>\<open>get_widget_at\<close> goes through all entries of the map
  by descending order and returns the first whose cropped region contains the point: it raises
  \<^verbatim>\<open>NoWidget\<close> exactly when no entry contains the point, and the entry it returns contains
  the point and has the greatest order among those that do. It reads neither the visible nor
  the transparent flag: in the occlusion arrangement with the front widget 2 transparent, or
  invisible, the renderer skips widget 2 and the whole row shows widget 1, yet the widget found
  at the cell \<open>(1, 0)\<close> is widget 2.
\<close>

theorem hit_test_ignores_flags:
  "get_widget_at c px py =
     (case find (\<lambda>item. contains (clipped (snd item)) px py)
             (sorted_reverse (\<lambda>item. rr_order (snd item)) (map_c c)) of
        None \<Rightarrow> Inl NoWidget
      | Some item \<Rightarrow> Inr (fst item, rr_region (snd item)))
   \<and> set (sorted_reverse (\<lambda>item. rr_order (snd item)) (map_c c)) = set (map_c c)
   \<and> length (sorted_reverse (\<lambda>item. rr_order (snd item)) (map_c c)) = length (map_c c)
   \<and> sorted (rev (map (\<lambda>item. rr_order (snd item))
                 (sorted_reverse (\<lambda>item. rr_order (snd item)) (map_c c))))
   \<and> (get_widget_at c px py = Inl NoWidget \<longleftrightarrow>
        (\<forall>item \<in> set (map_c c). \<not> contains (clipped (snd item)) px py))
   \<and> (\<forall>w region. get_widget_at c px py = Inr (w, region) \<longrightarrow>
        (\<exists>rr. (w, rr) \<in> set (map_c c) \<and> region = rr_region rr \<and> contains (clipped rr) px py \<and>
              (\<forall>item \<in> set (map_c c). contains (clipped (snd item)) px py \<longrightarrow>
                  rr_order (snd item) \<le> rr_order rr)))
   \<and> reflow 10 env_tr init 0 (Size 4 1) =
       (Inr \<lparr>hidden = {}, shown = {0, 1, 2}, resized = {}\<rparr>, c_occ)
   \<and> is_transparent (env_tr 2)
   \<and> get_widget_at c_occ 1 0 = Inr (2, Region 1 0 2 1)
   \<and> render_lines env_tr c_occ None =
       Inr [[Segment ''A'' (Some (Style 1)), Segment ''AA'' (Some (Style 1)),
             Segment ''A'' (Some (Style 1))]]
   \<and> reflow 10 env_inv init 0 (Size 4 1) =
       (Inr \<lparr>hidden = {}, shown = {0, 1, 2}, resized = {}\<rparr>, c_occ)
   \<and> \<not> visible (env_inv 2)
   \<and> render_lines env_inv c_occ None =
       Inr [[Segment ''A'' (Some (Style 1)), Segment ''AA'' (Some (Style 1)),
             Segment ''A'' (Some (Style 1))]]"
proof -
  let ?L = "sorted_reverse (\<lambda>item. rr_order (snd item)) (map_c c)"
  let ?P = "\<lambda>item. contains (clipped (snd item)) px py"
  note g = get_widget_at_find[of c px py]
  have m: "set ?L = set (map_c c)" by (simp add: sorted_reverse_def)
  have l: "length ?L = length (map_c c)" by (simp add: sorted_reverse_def)
  have s: "sorted (rev (map (\<lambda>item. rr_order (snd item)) ?L))"
    by (rule sorted_reverse_descending)
  have n: "get_widget_at c px py = Inl NoWidget \<longleftrightarrow>
        (\<forall>item \<in> set (map_c c). \<not> contains (clipped (snd item)) px py)"
  proof (cases "find ?P ?L")
    case None
    then have "\<forall>item \<in> set ?L. \<not> ?P item" unfolding find_None_iff by blast
    then have "\<forall>item \<in> set (map_c c). \<not> ?P item" unfolding m .
    moreover have "get_widget_at c px py = Inl NoWidget" using None g by simp
    ultimately show ?thesis by blast
  next
    case (Some e)
    from find_Some_mem[OF this] have "e \<in> set ?L" "?P e" by blast+
    then have "e \<in> set (map_c c)" "?P e" unfolding m by blast+
    moreover have "get_widget_at c px py \<noteq> Inl NoWidget" using Some g by simp
    ultimately show ?thesis by blast
  qed
  have h: "\<forall>w region. get_widget_at c px py = Inr (w, region) \<longrightarrow>
        (\<exists>rr. (w, rr) \<in> set (map_c c) \<and> region = rr_region rr \<and> contains (clipped rr) px py \<and>
              (\<forall>item \<in> set (map_c c). contains (clipped (snd item)) px py \<longrightarrow>
                  rr_order (snd item) \<le> rr_order rr))"
  proof (intro allI impI)
    fix w region assume r: "get_widget_at c px py = Inr (w, region)"
    with g obtain e where e: "find ?P ?L = Some e" "w = fst e" "region = rr_region (snd e)"
      by (auto split: option.splits)
    from find_Some_mem[OF e(1)] have em: "e \<in> set ?L" and ep: "?P e" by blast+
    have mx: "\<forall>item \<in> set (map_c c). ?P item \<longrightarrow> rr_order (snd item) \<le> rr_order (snd e)"
      using sorted_reverse_find_max[of ?P "\<lambda>item. rr_order (snd item)" "map_c c" e, OF e(1)]
      by blast
    from em have "e \<in> set (map_c c)" unfolding m .
    then have "(w, snd e) \<in> set (map_c c)" using e(2) by simp
    with e(3) ep mx show "\<exists>rr. (w, rr) \<in> set (map_c c) \<and> region = rr_region rr \<and>
              contains (clipped rr) px py \<and>
              (\<forall>item \<in> set (map_c c). contains (clipped (snd item)) px py \<longrightarrow>
                  rr_order (snd item) \<le> rr_order rr)"
      by blast
  qed
  have i1: "reflow 10 env_tr init 0 (Size 4 1) =
       (Inr \<lparr>hidden = {}, shown = {0, 1, 2}, resized = {}\<rparr>, c_occ)" by code_simp
  have i2: "is_transparent (env_tr 2)" by code_simp
  have i3: "get_widget_at c_occ 1 0 = Inr (2, Region 1 0 2 1)" by code_simp
  have i4: "render_lines env_tr c_occ None =
       Inr [[Segment ''A'' (Some (Style 1)), Segment ''AA'' (Some (Style 1)),
             Segment ''A'' (Some (Style 1))]]" by code_simp
  have i5: "reflow 10 env_inv init 0 (Size 4 1) =
       (Inr \<lparr>hidden = {}, shown = {0, 1, 2}, resized = {}\<rparr>, c_occ)" by code_simp
  have i6: "\<not> visible (env_inv 2)" by code_simp
  have i7: "render_lines env_inv c_occ None =
       Inr [[Segment ''A'' (Some (Style 1)), Segment ''AA'' (Some (Style 1)),
             Segment ''A'' (Some (Style 1))]]" by code_simp
  from g m l s n h i1 i2 i3 i4 i5 i6 i7 show ?thesis by (intro conjI)
qed

theorem hit_test_ignores_flags_witness:
  "get_widget_at c_occ 1 0 = Inr (2, Region 1 0 2 1)
   \<and> (\<exists>rr. (2, rr) \<in> set (map_c c_occ) \<and> Region 1 0 2 1 = rr_region rr \<and> contains (clipped rr) 1 0 \<and>
         (\<forall>item \<in> set (map_c c_occ). contains (clipped (snd item)) 1 0 \<longrightarrow>
             rr_order (snd item) \<le> rr_order rr))"
proof -
  note t = hit_test_ignores_flags[of c_occ 1 0]
  have a: "get_widget_at c_occ 1 0 = Inr (2, Region 1 0 2 1)" by code_simp
  from t[THEN conjunct2, THEN conjunct2, THEN conjunct2, THEN conjunct2, THEN conjunct2, THEN conjunct1,
         rule_format, OF a] a
  show ?thesis by simp
qed

end
